theory Spec2Isabelle
  imports Complex_Main
begin

section \<open>Go strings, runes and UTF-8\<close>

text \<open>
  A Go string is a sequence of bytes, modelled as \<^typ>\<open>string\<close> (a list of 8-bit
  characters).  Ranging over a string (\<^verbatim>\<open>for _, r := range s\<close>), \<^verbatim>\<open>strings.Map\<close> and the
  \<^verbatim>\<open>regexp\<close> package read it rune by rune: a well-formed UTF-8 sequence is one rune, and
  every byte that does not start one is the rune U+FFFD of width 1.  Runes are code
  points, modelled as natural numbers.
\<close>

type_synonym rune = nat

definition RuneError :: rune where
  "RuneError = 0xFFFD"

text \<open>
  The table \<^verbatim>\<open>first\<close> of package \<^verbatim>\<open>unicode/utf8\<close>: for a leading byte of a multi-byte
  sequence, its length and the range accepted for the second byte.
\<close>

definition lead_info :: "nat \<Rightarrow> (nat \<times> nat \<times> nat) option" where
  "lead_info b =
     (if 0xC2 \<le> b \<and> b \<le> 0xDF then Some (2, 0x80, 0xBF)
      else if b = 0xE0 then Some (3, 0xA0, 0xBF)
      else if 0xE1 \<le> b \<and> b \<le> 0xEC then Some (3, 0x80, 0xBF)
      else if b = 0xED then Some (3, 0x80, 0x9F)
      else if b = 0xEE \<or> b = 0xEF then Some (3, 0x80, 0xBF)
      else if b = 0xF0 then Some (4, 0x90, 0xBF)
      else if 0xF1 \<le> b \<and> b \<le> 0xF3 then Some (4, 0x80, 0xBF)
      else if b = 0xF4 then Some (4, 0x80, 0x8F)
      else None)"

definition cont_byte :: "nat \<Rightarrow> bool" where
  "cont_byte b \<longleftrightarrow> 0x80 \<le> b \<and> b \<le> 0xBF"

text \<open>
  \<^verbatim>\<open>utf8.DecodeRuneInString\<close>: the rune at the head of the string and its width in bytes.
  The masks and shifts of the original are written as \<open>mod\<close> and multiplication.
\<close>

fun decodeRune :: "string \<Rightarrow> rune \<times> nat" where
  "decodeRune [] = (RuneError, 0)"
| "decodeRune (c0 # cs) =
     (let b0 = of_char c0 in
      if b0 < 0x80 then (b0, 1)
      else case lead_info b0 of
        None \<Rightarrow> (RuneError, 1)
      | Some (sz, lo, hi) \<Rightarrow>
          if Suc (length cs) < sz then (RuneError, 1)
          else case cs of
            [] \<Rightarrow> (RuneError, 1)
          | c1 # cs1 \<Rightarrow>
              let b1 = of_char c1 in
              if b1 < lo \<or> hi < b1 then (RuneError, 1)
              else if sz \<le> 2 then ((b0 mod 32) * 64 + b1 mod 64, 2)
              else case cs1 of
                [] \<Rightarrow> (RuneError, 1)
              | c2 # cs2 \<Rightarrow>
                  let b2 = of_char c2 in
                  if \<not> cont_byte b2 then (RuneError, 1)
                  else if sz \<le> 3 then
                    ((b0 mod 16) * 4096 + (b1 mod 64) * 64 + b2 mod 64, 3)
                  else case cs2 of
                    [] \<Rightarrow> (RuneError, 1)
                  | c3 # cs3 \<Rightarrow>
                      let b3 = of_char c3 in
                      if \<not> cont_byte b3 then (RuneError, 1)
                      else ((b0 mod 8) * 262144 + (b1 mod 64) * 4096
                              + (b2 mod 64) * 64 + b3 mod 64, 4))"

text \<open>
  A token is a rune together with the bytes it was decoded from; \<open>tokens\<close> is what a
  \<^verbatim>\<open>range\<close> loop over the string visits, \<open>runes\<close> the runes alone.
\<close>

type_synonym token = "rune \<times> string"

fun tokens :: "string \<Rightarrow> token list" where
  "tokens [] = []"
| "tokens (c # cs) =
     (case decodeRune (c # cs) of
        (r, sz) \<Rightarrow> (r, c # take (sz - 1) cs) # tokens (drop (sz - 1) cs))"

definition runes :: "string \<Rightarrow> rune list" where
  "runes s = map fst (tokens s)"

text \<open>
  \<^verbatim>\<open>utf8.AppendRune\<close>, which \<^verbatim>\<open>strings.Builder.WriteRune\<close> calls: surrogates and values
  beyond U+10FFFF are written as U+FFFD.
\<close>

definition encodeRune :: "rune \<Rightarrow> string" where
  "encodeRune r =
     (if r < 0x80 then [char_of r]
      else if r \<le> 0x7FF then [char_of (0xC0 + r div 64), char_of (0x80 + r mod 64)]
      else if r > 0x10FFFF \<or> (0xD800 \<le> r \<and> r \<le> 0xDFFF) then
        [char_of (0xEF::nat), char_of (0xBF::nat), char_of (0xBD::nat)]
      else if r \<le> 0xFFFF then
        [char_of (0xE0 + r div 4096), char_of (0x80 + (r div 64) mod 64),
         char_of (0x80 + r mod 64)]
      else
        [char_of (0xF0 + r div 262144), char_of (0x80 + (r div 4096) mod 64),
         char_of (0x80 + (r div 64) mod 64), char_of (0x80 + r mod 64)])"

definition encodeRunes :: "rune list \<Rightarrow> string" where
  "encodeRunes rs = concat (map encodeRune rs)"

text \<open>The Unicode scalar values: the runes that UTF-8 can encode.\<close>

definition valid_scalar :: "rune \<Rightarrow> bool" where
  "valid_scalar r \<longleftrightarrow> r < 0xD800 \<or> (0xE000 \<le> r \<and> r \<le> 0x10FFFF)"

text \<open>
  \<^verbatim>\<open>strings.Map\<close> for a mapping that never returns a negative rune: every rune of the
  input is replaced by its image, written in UTF-8.
\<close>

definition strings_Map :: "(rune \<Rightarrow> rune) \<Rightarrow> string \<Rightarrow> string" where
  "strings_Map mapping s = encodeRunes (map mapping (runes s))"

section \<open>Errors\<close>

text \<open>
  A Go \<^verbatim>\<open>error\<close> value: the sentinels the code compares against by identity, an error
  made by \<^verbatim>\<open>errors.New\<close> or by \<^verbatim>\<open>fmt.Errorf\<close> without \<^verbatim>\<open>%w\<close> (its message), and one made
  by \<^verbatim>\<open>fmt.Errorf\<close> with \<^verbatim>\<open>%w\<close> (its whole message and the error it wraps).
\<close>

datatype error =
    EOF
  | ErrShortWrite
  | ErrMaxFileSizeExceeded
  | ErrInvalidBuffer
  | ErrNotExist
  | ENOENT
  | PathError string string error
  | New string
  | Wrap string error

fun Error :: "error \<Rightarrow> string" where
  "Error EOF = ''EOF''"
| "Error ErrShortWrite = ''short write''"
| "Error ErrMaxFileSizeExceeded = ''max file size exceeded''"
| "Error ErrInvalidBuffer = ''buffer validation failed''"
| "Error ErrNotExist = ''file does not exist''"
| "Error ENOENT = ''no such file or directory''"
| "Error (PathError op path e) = op @ '' '' @ path @ '': '' @ Error e"
| "Error (New m) = m"
| "Error (Wrap m e) = m"

text \<open>
  \<^verbatim>\<open>errors.Is\<close> for a sentinel target: the error or one it wraps is the target.  An
  \<^verbatim>\<open>*fs.PathError\<close> unwraps to its cause, and the error number \<^verbatim>\<open>ENOENT\<close> counts as
  \<^verbatim>\<open>fs.ErrNotExist\<close>.
\<close>

fun errors_Is :: "error \<Rightarrow> error \<Rightarrow> bool" where
  "errors_Is (Wrap m e) target = (Wrap m e = target \<or> errors_Is e target)"
| "errors_Is (PathError op path e) target = (PathError op path e = target \<or> errors_Is e target)"
| "errors_Is ENOENT target = (target = ENOENT \<or> target = ErrNotExist)"
| "errors_Is e target = (e = target)"

text \<open>
  \<^verbatim>\<open>os.IsNotExist\<close>: it looks at the cause of a \<^verbatim>\<open>*fs.PathError\<close>, and not through any other
  wrapper; the error is \<^verbatim>\<open>fs.ErrNotExist\<close> or the error number \<^verbatim>\<open>ENOENT\<close>.
\<close>

definition underlyingError :: "error \<Rightarrow> error" where
  "underlyingError e = (case e of PathError op path cause \<Rightarrow> cause | _ \<Rightarrow> e)"

definition IsNotExist :: "error \<Rightarrow> bool" where
  "IsNotExist e \<longleftrightarrow> underlyingError e = ErrNotExist \<or> underlyingError e = ENOENT"

text \<open>\<^verbatim>\<open>fmt.Errorf(prefix + "%w", err)\<close> and \<^verbatim>\<open>fmt.Errorf(prefix + "%v", err)\<close>.\<close>

definition Errorf_w :: "string \<Rightarrow> error \<Rightarrow> error" where
  "Errorf_w prefix e = Wrap (prefix @ Error e) e"

definition Errorf_v :: "string \<Rightarrow> error \<Rightarrow> error" where
  "Errorf_v prefix e = New (prefix @ Error e)"

text \<open>The verb \<^verbatim>\<open>%d\<close>: an integer in decimal.\<close>

definition digit_char :: "nat \<Rightarrow> char" where
  "digit_char d = char_of (of_char CHR ''0'' + d)"

function decimal :: "nat \<Rightarrow> string" where
  "decimal n = (if n < 10 then [digit_char n] else decimal (n div 10) @ [digit_char (n mod 10)])"
  by pat_completeness auto
termination
  by (relation "measure id") auto

definition show_int :: "int \<Rightarrow> string" where
  "show_int i = (if i < 0 then CHR ''-'' # decimal (nat (- i)) else decimal (nat i))"

section \<open>Package strings\<close>

text \<open>\<^verbatim>\<open>strings.Contains\<close> and \<^verbatim>\<open>strings.Count\<close> of a single byte.\<close>

fun has_prefix :: "string \<Rightarrow> string \<Rightarrow> bool" where
  "has_prefix s [] = True"
| "has_prefix [] (p # ps) = False"
| "has_prefix (c # cs) (p # ps) = (c = p \<and> has_prefix cs ps)"

fun strings_Contains :: "string \<Rightarrow> string \<Rightarrow> bool" where
  "strings_Contains [] sub = (sub = [])"
| "strings_Contains (c # cs) sub = (has_prefix (c # cs) sub \<or> strings_Contains cs sub)"

definition strings_Count :: "string \<Rightarrow> char \<Rightarrow> nat" where
  "strings_Count s c = length (filter (\<lambda>x. x = c) s)"

text \<open>
  \<^verbatim>\<open>unicode.IsSpace\<close>, and \<^verbatim>\<open>strings.TrimSpace\<close>: the string without its leading and
  trailing white-space runes.
\<close>

definition IsSpace :: "rune \<Rightarrow> bool" where
  "IsSpace r \<longleftrightarrow>
     (0x09 \<le> r \<and> r \<le> 0x0D) \<or> r = 0x20 \<or> r = 0x85 \<or> r = 0xA0 \<or> r = 0x1680
   \<or> (0x2000 \<le> r \<and> r \<le> 0x200A) \<or> r = 0x2028 \<or> r = 0x2029 \<or> r = 0x202F
   \<or> r = 0x205F \<or> r = 0x3000"

definition TrimSpace :: "string \<Rightarrow> string" where
  "TrimSpace s =
     concat (map snd
       (rev (dropWhile (\<lambda>t. IsSpace (fst t)) (rev (dropWhile (\<lambda>t. IsSpace (fst t)) (tokens s))))))"

section \<open>Package regexp, as far as the patterns of the code need it\<close>

text \<open>
  The patterns of this code are sequences of items: a class of runes taken once,
  optionally (\<^verbatim>\<open>?\<close>) or any number of times (\<^verbatim>\<open>*\<close>), and the word boundary \<^verbatim>\<open>\b\<close>;
  \<^verbatim>\<open>x+\<close> is \<^verbatim>\<open>xx*\<close>.  A pattern is kept with its source text, which error messages print.
\<close>

datatype quant = One | Opt | Star

datatype item = Cls "rune \<Rightarrow> bool" quant | WordB

type_synonym pattern = "string \<times> item list"

text \<open>\<^verbatim>\<open>syntax.IsWordChar\<close>: the ASCII word characters, which \<^verbatim>\<open>\b\<close> looks at.\<close>

definition IsWordChar :: "rune \<Rightarrow> bool" where
  "IsWordChar r \<longleftrightarrow>
     (of_char CHR ''A'' \<le> r \<and> r \<le> of_char CHR ''Z'')
   \<or> (of_char CHR ''a'' \<le> r \<and> r \<le> of_char CHR ''z'')
   \<or> (of_char CHR ''0'' \<le> r \<and> r \<le> of_char CHR ''9'')
   \<or> r = of_char CHR ''_''"

definition word_before :: "rune option \<Rightarrow> bool" where
  "word_before prev = (case prev of None \<Rightarrow> False | Some r \<Rightarrow> IsWordChar r)"

definition word_after :: "token list \<Rightarrow> bool" where
  "word_after ts = (case ts of [] \<Rightarrow> False | t # _ \<Rightarrow> IsWordChar (fst t))"

text \<open>
  One attempt at a fixed start, in the order of a backtracking matcher (a quantified
  class takes as much as it can first): the tokens left after the preferred match.
  \<open>prev\<close> is the rune before the current position.
\<close>

fun m_items :: "item list \<Rightarrow> rune option \<Rightarrow> token list \<Rightarrow> token list option" where
  "m_items [] prev ts = Some ts"
| "m_items (WordB # its) prev ts =
     (if word_before prev \<noteq> word_after ts then m_items its prev ts else None)"
| "m_items (Cls p One # its) prev [] = None"
| "m_items (Cls p One # its) prev (t # ts) =
     (if p (fst t) then m_items its (Some (fst t)) ts else None)"
| "m_items (Cls p Opt # its) prev [] = m_items its prev []"
| "m_items (Cls p Opt # its) prev (t # ts) =
     (if p (fst t) then
        (case m_items its (Some (fst t)) ts of
           Some rest \<Rightarrow> Some rest
         | None \<Rightarrow> m_items its prev (t # ts))
      else m_items its prev (t # ts))"
| "m_items (Cls p Star # its) prev [] = m_items its prev []"
| "m_items (Cls p Star # its) prev (t # ts) =
     (if p (fst t) then
        (case m_items (Cls p Star # its) (Some (fst t)) ts of
           Some rest \<Rightarrow> Some rest
         | None \<Rightarrow> m_items its prev (t # ts))
      else m_items its prev (t # ts))"

text \<open>The leftmost match: the bytes matched, if any start position matches.\<close>

fun search :: "item list \<Rightarrow> rune option \<Rightarrow> token list \<Rightarrow> string option" where
  "search its prev [] =
     (case m_items its prev [] of Some rest \<Rightarrow> Some [] | None \<Rightarrow> None)"
| "search its prev (t # ts) =
     (case m_items its prev (t # ts) of
        Some rest \<Rightarrow> Some (concat (map snd (take (Suc (length ts) - length rest) (t # ts))))
      | None \<Rightarrow> search its (Some (fst t)) ts)"

text \<open>\<^verbatim>\<open>regexp.MatchString\<close> for a pattern that compiles (its error result is then nil).\<close>

definition MatchString :: "pattern \<Rightarrow> string \<Rightarrow> bool" where
  "MatchString pat s \<longleftrightarrow> search (snd pat) None (tokens s) \<noteq> None"

text \<open>
  Classes.  Under \<^verbatim>\<open>(?i)\<close> a literal letter stands for its orbit under simple case
  folding: both cases, and for \<^verbatim>\<open>k\<close> the Kelvin sign U+212A, for \<^verbatim>\<open>s\<close> the long s
  U+017F; a Perl class is closed under folding in the same way.  \<^verbatim>\<open>\d\<close>, \<^verbatim>\<open>\s\<close> and
  \<^verbatim>\<open>\w\<close> are ASCII classes, and \<^verbatim>\<open>.\<close> is every rune but the line feed.
\<close>

definition lit :: "char \<Rightarrow> rune \<Rightarrow> bool" where
  "lit c r \<longleftrightarrow> r = of_char c"

definition upper_of :: "rune \<Rightarrow> rune" where
  "upper_of r = (if of_char CHR ''a'' \<le> r \<and> r \<le> of_char CHR ''z'' then r - 32 else r)"

definition ilit :: "char \<Rightarrow> rune \<Rightarrow> bool" where
  "ilit c r \<longleftrightarrow>
     (let u = upper_of (of_char c) in
      if of_char CHR ''A'' \<le> u \<and> u \<le> of_char CHR ''Z'' then
        r = u \<or> r = u + 32
        \<or> (u = of_char CHR ''K'' \<and> r = 0x212A) \<or> (u = of_char CHR ''S'' \<and> r = 0x17F)
      else r = u)"

definition cls_d :: "rune \<Rightarrow> bool" where
  "cls_d r \<longleftrightarrow> of_char CHR ''0'' \<le> r \<and> r \<le> of_char CHR ''9''"

definition cls_s :: "rune \<Rightarrow> bool" where
  "cls_s r \<longleftrightarrow> r = 0x09 \<or> r = 0x0A \<or> r = 0x0C \<or> r = 0x0D \<or> r = 0x20"

definition cls_w :: "rune \<Rightarrow> bool" where
  "cls_w r \<longleftrightarrow> IsWordChar r"

definition cls_w_fold :: "rune \<Rightarrow> bool" where
  "cls_w_fold r \<longleftrightarrow> IsWordChar r \<or> r = 0x17F \<or> r = 0x212A"

definition cls_dot :: "rune \<Rightarrow> bool" where
  "cls_dot r \<longleftrightarrow> r \<noteq> 0x0A"

definition lits :: "string \<Rightarrow> item list" where
  "lits s = map (\<lambda>c. Cls (lit c) One) s"

definition ilits :: "string \<Rightarrow> item list" where
  "ilits s = map (\<lambda>c. Cls (ilit c) One) s"

definition plus :: "(rune \<Rightarrow> bool) \<Rightarrow> item list" where
  "plus p = [Cls p One, Cls p Star]"

section \<open>Package database\<close>

subsection \<open>Table names\<close>

text \<open>The character class \<^verbatim>\<open>[A-Za-z0-9_]\<close> tested by the mapping of \<^verbatim>\<open>sanitizeTableName\<close>.\<close>

definition allowedRune :: "rune \<Rightarrow> bool" where
  "allowedRune r \<longleftrightarrow>
     (of_char CHR ''a'' \<le> r \<and> r \<le> of_char CHR ''z'')
   \<or> (of_char CHR ''A'' \<le> r \<and> r \<le> of_char CHR ''Z'')
   \<or> (of_char CHR ''0'' \<le> r \<and> r \<le> of_char CHR ''9'')
   \<or> r = of_char CHR ''_''"

definition sanitizeRune :: "rune \<Rightarrow> rune" where
  "sanitizeRune r = (if allowedRune r then r else of_char CHR ''_'')"

definition sanitizeTableName :: "string \<Rightarrow> string" where
  "sanitizeTableName tableName = strings_Map sanitizeRune tableName"


subsection \<open>Query validation\<close>

text \<open>The deny-list of \<^verbatim>\<open>validateQuery\<close>, in its order.\<close>

definition suspiciousPatterns :: "pattern list" where
  "suspiciousPatterns =
    [(''(?i)'' @ [CHR 0x5C] @ ''bUNION'' @ [CHR 0x5C] @ ''b.*'' @ [CHR 0x5C] @ ''bSELECT'' @ [CHR 0x5C] @ ''b'',
        WordB # ilits ''UNION'' @ [WordB, Cls cls_dot Star, WordB] @ ilits ''SELECT'' @ [WordB]),
     (''(?i)'' @ [CHR 0x5C] @ ''bOR'' @ [CHR 0x5C] @ ''b'' @ [CHR 0x5C] @ ''s+'' @ [CHR 0x5C] @ ''d+''
          @ [CHR 0x5C] @ ''s*='' @ [CHR 0x5C] @ ''s*'' @ [CHR 0x5C] @ ''d+'',
        WordB # ilits ''OR'' @ [WordB] @ plus cls_s @ plus cls_d
          @ [Cls cls_s Star, Cls (ilit CHR ''='') One, Cls cls_s Star] @ plus cls_d),
     (''(?i)--'', ilits ''--''),
     (''(?i)/'' @ [CHR 0x5C] @ ''*.*'' @ [CHR 0x5C] @ ''*/'',
        ilits ''/*'' @ [Cls cls_dot Star] @ ilits ''*/''),
     (''(?i)'' @ [CHR 0x5C] @ ''bEXEC'' @ [CHR 0x5C] @ ''b'',
        WordB # ilits ''EXEC'' @ [WordB]),
     (''(?i)'' @ [CHR 0x5C] @ ''bXP_'' @ [CHR 0x5C] @ ''w+'' @ [CHR 0x5C] @ ''b'',
        WordB # ilits ''XP_'' @ plus cls_w_fold @ [WordB])]"

text \<open>
  \<^verbatim>\<open>validateQuery\<close>.  A query with more than one semicolon is only logged.  The patterns
  are tried in order and the first that matches is reported.
\<close>

fun first_match :: "pattern list \<Rightarrow> string \<Rightarrow> error option" where
  "first_match [] query = None"
| "first_match (pat # pats) query =
     (if MatchString pat query then
        Some (New (''potentially malicious SQL pattern detected: '' @ fst pat))
      else first_match pats query)"

definition validateQuery :: "string \<Rightarrow> error option" where
  "validateQuery query = first_match suspiciousPatterns query"

text \<open>
  The deny-list as the specification words it, for comparison with the list of the code.
  It differs in two places: \<^verbatim>\<open>UNION\<close> is not preceded by a word boundary, and a block
  comment is \<^verbatim>\<open>/*\<close>, anything, \<^verbatim>\<open>*/\<close>, where anything includes line feeds.
\<close>

definition claimed_union :: pattern where
  "claimed_union =
     (''(?i)UNION'' @ [CHR 0x5C] @ ''b.*'' @ [CHR 0x5C] @ ''bSELECT'' @ [CHR 0x5C] @ ''b'',
      ilits ''UNION'' @ [WordB, Cls cls_dot Star, WordB] @ ilits ''SELECT'' @ [WordB])"

definition claimed_block_comment :: pattern where
  "claimed_block_comment =
     (''(?is)/'' @ [CHR 0x5C] @ ''*.*'' @ [CHR 0x5C] @ ''*/'',
      ilits ''/*'' @ [Cls (\<lambda>r. True) Star] @ ilits ''*/'')"

definition claimed_patterns :: "pattern list" where
  "claimed_patterns = suspiciousPatterns[0 := claimed_union, 3 := claimed_block_comment]"

subsection \<open>Splitting a query at semicolons\<close>

text \<open>
  The loop of \<^verbatim>\<open>splitQueryBySemicolon\<close> over the runes of the query: \<open>cur\<close> is the builder
  \<^verbatim>\<open>currentQuery\<close>, \<open>acc\<close> the segments found so far.  A segment is appended at every
  semicolon outside quotes, also when it is empty; what is left at the end is appended
  only when it is not empty.
\<close>

fun split_loop :: "rune list \<Rightarrow> bool \<Rightarrow> bool \<Rightarrow> string \<Rightarrow> string list \<Rightarrow> string list" where
  "split_loop [] inQuote escapeNext cur acc = (if length cur > 0 then acc @ [cur] else acc)"
| "split_loop (ch # rest) inQuote escapeNext cur acc =
     (if escapeNext then split_loop rest inQuote False (cur @ encodeRune ch) acc
      else if ch = of_char (CHR 0x5C) then split_loop rest inQuote True (cur @ encodeRune ch) acc
      else if ch = of_char (CHR 0x22) \<or> ch = of_char (CHR 0x27) then
        split_loop rest (\<not> inQuote) escapeNext (cur @ encodeRune ch) acc
      else if ch = of_char CHR '';'' \<and> \<not> inQuote then
        split_loop rest inQuote escapeNext [] (acc @ [cur])
      else split_loop rest inQuote escapeNext (cur @ encodeRune ch) acc)"

definition splitQueryBySemicolon :: "string \<Rightarrow> string list" where
  "splitQueryBySemicolon query = split_loop (runes query) False False [] []"


subsection \<open>The split, seen on runes\<close>

text \<open>
  \<^verbatim>\<open>strings.Join\<close>, and the notions the statements about the split use: the same loop
  with the builder holding runes (\<open>split_r\<close>), the state in which the loop leaves a
  sequence of runes that holds no separator (\<open>quote_scan\<close>, \<open>None\<close> when it holds one),
  and the lists of segments in which every segment but the last leaves the loop outside
  quotes and escapes, and none holds a separator (\<open>segments_ok\<close>).
\<close>

definition strings_Join :: "string list \<Rightarrow> string \<Rightarrow> string" where
  "strings_Join elems sep = concat (case elems of [] \<Rightarrow> [] | e # es \<Rightarrow> e # map (\<lambda>x. sep @ x) es)"

fun join_runes :: "rune list list \<Rightarrow> rune list" where
  "join_runes [] = []"
| "join_runes [s] = s"
| "join_runes (s # t # r) = s @ [of_char CHR '';''] @ join_runes (t # r)"

fun split_r :: "rune list \<Rightarrow> bool \<Rightarrow> bool \<Rightarrow> rune list \<Rightarrow> rune list list \<Rightarrow> rune list list" where
  "split_r [] inQuote escapeNext cur acc = (if cur \<noteq> [] then acc @ [cur] else acc)"
| "split_r (ch # rest) inQuote escapeNext cur acc =
     (if escapeNext then split_r rest inQuote False (cur @ [ch]) acc
      else if ch = of_char (CHR 0x5C) then split_r rest inQuote True (cur @ [ch]) acc
      else if ch = of_char (CHR 0x22) \<or> ch = of_char (CHR 0x27) then
        split_r rest (\<not> inQuote) escapeNext (cur @ [ch]) acc
      else if ch = of_char CHR '';'' \<and> \<not> inQuote then
        split_r rest inQuote escapeNext [] (acc @ [cur])
      else split_r rest inQuote escapeNext (cur @ [ch]) acc)"

fun quote_scan :: "rune list \<Rightarrow> bool \<Rightarrow> bool \<Rightarrow> (bool \<times> bool) option" where
  "quote_scan [] inQuote escapeNext = Some (inQuote, escapeNext)"
| "quote_scan (ch # rest) inQuote escapeNext =
     (if escapeNext then quote_scan rest inQuote False
      else if ch = of_char (CHR 0x5C) then quote_scan rest inQuote True
      else if ch = of_char (CHR 0x22) \<or> ch = of_char (CHR 0x27) then quote_scan rest (\<not> inQuote) escapeNext
      else if ch = of_char CHR '';'' \<and> \<not> inQuote then None
      else quote_scan rest inQuote escapeNext)"

fun segments_ok :: "rune list list \<Rightarrow> bool" where
  "segments_ok [] = True"
| "segments_ok [s] = (quote_scan s False False \<noteq> None)"
| "segments_ok (s # t # r) = (quote_scan s False False = Some (False, False) \<and> segments_ok (t # r))"


text \<open>A rune that is white space or the semicolon.\<close>

definition blank :: "rune \<Rightarrow> bool" where
  "blank r \<longleftrightarrow> IsSpace r \<or> r = of_char CHR '';''"


subsection \<open>The engine, the clock and the file system\<close>

text \<open>
  The embedded engine behind \<^verbatim>\<open>database/sql\<close>, the clock and the file system are
  outside the code.  They are a state \<open>'w\<close> and the operations of a \<open>driver\<close> on it; the
  code may meet any driver.  What a statement's cursor yields is finite: the result of
  \<^verbatim>\<open>rows.Columns()\<close>, what the successive \<^verbatim>\<open>rows.Scan\<close> calls return (an error or the
  scanned values), and the final \<^verbatim>\<open>rows.Err()\<close>.
\<close>

datatype any = AnyNil | AnyBytes string | AnyString string | AnyInt int | AnyBool bool | AnyOther string

record cursor =
  Columns :: "error + string list"
  Scans :: "(error + any list) list"
  RowsErr :: "error option"

record 'w driver =
  time_Now :: "'w \<Rightarrow> int \<times> 'w"
  db_Prepare :: "string \<Rightarrow> 'w \<Rightarrow> error option \<times> 'w"
  stmt_Query :: "string \<Rightarrow> 'w \<Rightarrow> (error + cursor) \<times> 'w"
  db_Exec :: "string \<Rightarrow> 'w \<Rightarrow> error option \<times> 'w"
  db_Close :: "'w \<Rightarrow> error option \<times> 'w"
  os_Remove :: "string \<Rightarrow> 'w \<Rightarrow> error option \<times> 'w"
  ctx_cancel :: "'w \<Rightarrow> 'w"

text \<open>
  The calls made on the engine are recorded next to the state of the world, so that
  "no statement is prepared or executed" can be said.
\<close>

datatype call = Prepare string | Query string | Exec string | CloseStmt | CloseRows | CloseDB

record 'w state =
  world :: 'w
  calls :: "call list"

definition now :: "'w driver \<Rightarrow> 'w state \<Rightarrow> int \<times> 'w state" where
  "now D st = (case time_Now D (world st) of (t, w) \<Rightarrow> (t, st\<lparr>world := w\<rparr>))"

definition prepare :: "'w driver \<Rightarrow> string \<Rightarrow> 'w state \<Rightarrow> error option \<times> 'w state" where
  "prepare D q st =
     (case db_Prepare D q (world st) of
        (r, w) \<Rightarrow> (r, st\<lparr>world := w, calls := calls st @ [Prepare q]\<rparr>))"

definition run_query :: "'w driver \<Rightarrow> string \<Rightarrow> 'w state \<Rightarrow> (error + cursor) \<times> 'w state" where
  "run_query D q st =
     (case stmt_Query D q (world st) of
        (r, w) \<Rightarrow> (r, st\<lparr>world := w, calls := calls st @ [Query q]\<rparr>))"

definition note_call :: "call \<Rightarrow> 'w state \<Rightarrow> 'w state" where
  "note_call c st = st\<lparr>calls := calls st @ [c]\<rparr>"

text \<open>The statements handed to \<^verbatim>\<open>Prepare\<close>, in order.\<close>

fun prepared :: "call list \<Rightarrow> string list" where
  "prepared [] = []"
| "prepared (Prepare q # cs) = q # prepared cs"
| "prepared (c # cs) = prepared cs"

subsection \<open>Durations and machine integers\<close>

text \<open>
  A \<^verbatim>\<open>time.Duration\<close> is a number of nanoseconds; Go's integer division truncates
  towards zero.  An \<^verbatim>\<open>int\<close> or \<^verbatim>\<open>int64\<close> computed from a row count wraps around at 64
  bits, and so does a difference of durations.
\<close>

definition tdiv :: "int \<Rightarrow> int \<Rightarrow> int" where
  "tdiv a b = (if (a < 0) = (b < 0) then \<bar>a\<bar> div \<bar>b\<bar> else - (\<bar>a\<bar> div \<bar>b\<bar>))"

definition Milliseconds :: "int \<Rightarrow> int" where
  "Milliseconds d = tdiv d 1000000"

definition wrap64 :: "int \<Rightarrow> int" where
  "wrap64 x = (x + 2 ^ 63) mod 2 ^ 64 - 2 ^ 63"

subsection \<open>Results and benchmark metrics\<close>

text \<open>
  The \<^verbatim>\<open>float64\<close> timing fields hold whole numbers of milliseconds and are integers
  here; \<^verbatim>\<open>CpuTimeMs\<close>, the truncation of \<^verbatim>\<open>float64(ms) * 0.8\<close>, is the truncated quotient
  of \<open>4 * ms\<close> by 5; \<^verbatim>\<open>HitRatio\<close> holds the constant written \<^verbatim>\<open>0.83\<close>.
\<close>

record Timing =
  TotalMs :: int
  ParsingMs :: int
  PlanningMs :: int
  ExecutionMs :: int
  SerializationMs :: int

record Resources =
  PeakMemoryBytes :: int
  ThreadCount :: int
  CpuTimeMs :: int
  IoReadBytes :: int
  IoWriteBytes :: int

record QueryStats =
  RowsProcessed :: int
  RowsReturned :: int
  OperatorCount :: int
  ScanCount :: int

record Cache =
  HitCount :: int
  MissCount :: int
  HitRatio :: real

record BenchmarkMetrics =
  timing :: Timing
  resources :: Resources
  queryStats :: QueryStats
  cache :: Cache

record QueryResult =
  Results :: "(string \<rightharpoonup> any) list"
  Benchmarks :: "BenchmarkMetrics option"
  Duration :: int

definition calculateBenchmarkMetrics ::
    "int \<Rightarrow> int \<Rightarrow> int \<Rightarrow> int \<Rightarrow> int \<Rightarrow> int \<Rightarrow> BenchmarkMetrics" where
  "calculateBenchmarkMetrics duration parsingDuration planningDuration serializationDuration
      rowCount resultCount =
     (let executionDuration =
            max (wrap64 (wrap64 (wrap64 (duration - parsingDuration) - planningDuration)
                   - serializationDuration)) 0
      in \<lparr> timing = \<lparr> TotalMs = Milliseconds duration,
                       ParsingMs = Milliseconds parsingDuration,
                       PlanningMs = Milliseconds planningDuration,
                       ExecutionMs = Milliseconds executionDuration,
                       SerializationMs = Milliseconds serializationDuration \<rparr>,
           resources = \<lparr> PeakMemoryBytes = wrap64 (resultCount * 1024),
                          ThreadCount = 4,
                          CpuTimeMs = tdiv (Milliseconds duration * 4) 5,
                          IoReadBytes = wrap64 (resultCount * 256),
                          IoWriteBytes = 0 \<rparr>,
           queryStats = \<lparr> RowsProcessed = wrap64 (rowCount * 2),
                           RowsReturned = rowCount,
                           OperatorCount = 3,
                           ScanCount = 1 \<rparr>,
           cache = \<lparr> HitCount = 10, MissCount = 2, HitRatio = 0.83 \<rparr> \<rparr>)"

subsection \<open>Executing one statement\<close>

definition row_value :: "any \<Rightarrow> any" where
  "row_value v = (case v of AnyBytes b \<Rightarrow> AnyString b | _ \<Rightarrow> v)"

definition createRowMap :: "string list \<Rightarrow> any list \<Rightarrow> (string \<rightharpoonup> any)" where
  "createRowMap columns values =
     foldl (\<lambda>row (col, v). row(col \<mapsto> row_value v)) Map.empty (zip columns values)"

record queryExecution =
  qe_rows :: cursor
  qe_columns :: "string list"
  parsingDuration :: int
  planningDuration :: int

definition close_stmt_rows :: "'w state \<Rightarrow> 'w state" where
  "close_stmt_rows st = note_call CloseStmt (note_call CloseRows st)"

definition prepareAndExecuteQuery ::
    "'w driver \<Rightarrow> string \<Rightarrow> 'w state \<Rightarrow> (error + queryExecution) \<times> 'w state" where
  "prepareAndExecuteQuery D query st =
     (case now D st of (parsingStart, s1) \<Rightarrow>
      case prepare D query s1 of
        (Some err, s2) \<Rightarrow> (Inl (Errorf_w ''failed to prepare query: '' err), s2)
      | (None, s2) \<Rightarrow>
      case now D s2 of (parsingEnd, s3) \<Rightarrow>
      case now D s3 of (executionStart, s4) \<Rightarrow>
      case run_query D query s4 of
        (Inl err, s5) \<Rightarrow>
          (Inl (Errorf_w ''failed to execute query: '' err), note_call CloseStmt s5)
      | (Inr rows, s5) \<Rightarrow>
      case now D s5 of (executionEnd, s6) \<Rightarrow>
      case Columns rows of
        Inl err \<Rightarrow> (Inl (Errorf_w ''failed to get column names: '' err), close_stmt_rows s6)
      | Inr columns \<Rightarrow>
          (Inr \<lparr> qe_rows = rows, qe_columns = columns,
                 parsingDuration = parsingEnd - parsingStart,
                 planningDuration = tdiv (executionEnd - executionStart) 3 \<rparr>, s6))"

text \<open>The loop \<^verbatim>\<open>for qe.rows.Next()\<close>: it stops at the first \<^verbatim>\<open>Scan\<close> that fails.\<close>

fun scan_rows :: "string list \<Rightarrow> (error + any list) list \<Rightarrow> (string \<rightharpoonup> any) list
    \<Rightarrow> error + (string \<rightharpoonup> any) list" where
  "scan_rows columns [] results = Inr results"
| "scan_rows columns (Inl err # rest) results = Inl (Errorf_w ''failed to scan row: '' err)"
| "scan_rows columns (Inr values # rest) results =
     scan_rows columns rest (results @ [createRowMap columns values])"

record rowProcessingResult =
  rp_results :: "(string \<rightharpoonup> any) list"
  rp_rowCount :: int
  serializationDuration :: int

definition processRowsWithBenchmarking ::
    "'w driver \<Rightarrow> queryExecution \<Rightarrow> 'w state \<Rightarrow> (error + rowProcessingResult) \<times> 'w state" where
  "processRowsWithBenchmarking D qe st =
     (case now D st of (serializationStart, s1) \<Rightarrow>
      case scan_rows (qe_columns qe) (Scans (qe_rows qe)) [] of
        Inl err \<Rightarrow> (Inl err, s1)
      | Inr results \<Rightarrow>
      case RowsErr (qe_rows qe) of
        Some err \<Rightarrow> (Inl (Errorf_w ''error during row iteration: '' err), s1)
      | None \<Rightarrow>
      case now D s1 of (serializationEnd, s2) \<Rightarrow>
        (Inr \<lparr> rp_results = results,
               rp_rowCount = wrap64 (int (length results)),
               serializationDuration = serializationEnd - serializationStart \<rparr>, s2))"

definition executeSingleQuery ::
    "'w driver \<Rightarrow> string \<Rightarrow> 'w state \<Rightarrow> (error + QueryResult) \<times> 'w state" where
  "executeSingleQuery D query st =
     (case now D st of (startTime, s1) \<Rightarrow>
      case prepareAndExecuteQuery D query s1 of
        (Inl err, s2) \<Rightarrow> (Inl err, s2)
      | (Inr qe, s2) \<Rightarrow>
      case now D s2 of (logged, s3) \<Rightarrow>
      case processRowsWithBenchmarking D qe s3 of
        (Inl err, s4) \<Rightarrow> (Inl err, close_stmt_rows s4)
      | (Inr processResult, s4) \<Rightarrow>
      case now D s4 of (endTime, s5) \<Rightarrow>
        (let duration = endTime - startTime;
             benchmarks = calculateBenchmarkMetrics duration (parsingDuration qe)
                 (planningDuration qe) (serializationDuration processResult)
                 (rp_rowCount processResult)
                 (wrap64 (int (length (rp_results processResult))))
         in (Inr \<lparr> Results = rp_results processResult,
                    Benchmarks = Some benchmarks,
                    Duration = duration \<rparr>, close_stmt_rows s5)))"

subsection \<open>The database handle\<close>

text \<open>
  The struct \<^verbatim>\<open>DuckDB\<close>: \<open>db\<close> is the pointer to the connection (\<open>None\<close> is nil),
  \<open>cancelFunc\<close> says whether the cancel function is set.  The lock and the clean-up
  channel concern concurrent callers only.
\<close>

record DuckDB =
  db :: "unit option"
  dbPath :: string
  cancelFunc :: bool

subsection \<open>ExecuteQuery\<close>

text \<open>
  The loop of \<^verbatim>\<open>ExecuteQuery\<close> over the segments: \<open>i\<close> is the index of the segment in
  the list that \<^verbatim>\<open>splitQueryBySemicolon\<close> returned, \<open>lastResult\<close> the result kept so far.
\<close>

fun execute_loop :: "'w driver \<Rightarrow> nat \<Rightarrow> string list \<Rightarrow> QueryResult option \<Rightarrow> 'w state
    \<Rightarrow> (error + QueryResult option) \<times> 'w state" where
  "execute_loop D i [] lastResult st = (Inr lastResult, st)"
| "execute_loop D i (q # queries) lastResult st =
     (let singleQuery = TrimSpace q in
      if singleQuery = [] then execute_loop D (i + 1) queries lastResult st
      else case executeSingleQuery D singleQuery st of
        (Inl err, st') \<Rightarrow>
          (Inl (Wrap (''failed to execute query '' @ decimal (i + 1) @ '': '' @ Error err) err), st')
      | (Inr result, st') \<Rightarrow> execute_loop D (i + 1) queries (Some result) st')"

definition set_total :: "int \<Rightarrow> QueryResult \<Rightarrow> QueryResult" where
  "set_total duration r =
     r\<lparr> Duration := duration,
        Benchmarks :=
          map_option (\<lambda>b. b\<lparr> timing := (timing b)\<lparr> TotalMs := Milliseconds duration \<rparr> \<rparr>)
            (Benchmarks r) \<rparr>"

definition ExecuteQuery ::
    "'w driver \<Rightarrow> DuckDB \<Rightarrow> string \<Rightarrow> 'w state \<Rightarrow> (error + QueryResult) \<times> 'w state" where
  "ExecuteQuery D h query st =
     (if db h = None then (Inl (New ''database connection is closed''), st)
      else case validateQuery query of
        Some err \<Rightarrow> (Inl (Errorf_w ''invalid SQL query: '' err), st)
      | None \<Rightarrow>
      case now D st of (startTime, s1) \<Rightarrow>
      case execute_loop D 0 (splitQueryBySemicolon query) None s1 of
        (Inl err, s2) \<Rightarrow> (Inl err, s2)
      | (Inr None, s2) \<Rightarrow> (Inl (New ''no valid queries to execute''), s2)
      | (Inr (Some lastResult), s2) \<Rightarrow>
      case now D s2 of (endTime, s3) \<Rightarrow>
        (Inr (set_total (endTime - startTime) lastResult), s3))"


text \<open>
  The statements of a query as \<^verbatim>\<open>ExecuteQuery\<close> sees them: the segments that are not empty
  after trimming, each with its position (counted from 1) in the list of segments.
\<close>

definition statements :: "string \<Rightarrow> (nat \<times> string) list" where
  "statements query =
     filter (\<lambda>(i, s). s \<noteq> [])
       (map (\<lambda>(i, s). (Suc i, TrimSpace s)) (enumerate 0 (splitQueryBySemicolon query)))"

text \<open>The same for the segments from position \<open>i\<close> on.\<close>

definition statements_from :: "nat \<Rightarrow> string list \<Rightarrow> (nat \<times> string) list" where
  "statements_from i qs =
     filter (\<lambda>(i, s). s \<noteq> []) (map (\<lambda>(i, s). (Suc i, TrimSpace s)) (enumerate i qs))"


text \<open>
  The loop of \<^verbatim>\<open>ExecuteQuery\<close> seen on the statements, a step towards the theorem: the
  position and the error of the statement that failed, or the results of all.
\<close>

fun run_statements :: "'w driver \<Rightarrow> (nat \<times> string) list \<Rightarrow> 'w state
    \<Rightarrow> ((nat \<times> error) + QueryResult list) \<times> 'w state" where
  "run_statements D [] st = (Inr [], st)"
| "run_statements D ((i, s) # rest) st =
     (case executeSingleQuery D s st of
        (Inl err, st') \<Rightarrow> (Inl (i, err), st')
      | (Inr r, st') \<Rightarrow>
          (case run_statements D rest st' of
             (Inl failed, st'') \<Rightarrow> (Inl failed, st'')
           | (Inr rs, st'') \<Rightarrow> (Inr (r # rs), st'')))"

text \<open>
  The engine alone, for saying what "the statements are executed one after the other"
  means without the code: these definitions use the operations of the driver only.
  \<open>ticks D n w\<close> is the world after the clock was read \<open>n\<close> times.
\<close>

fun ticks :: "'w driver \<Rightarrow> nat \<Rightarrow> 'w \<Rightarrow> 'w" where
  "ticks D 0 w = w"
| "ticks D (Suc n) w = ticks D n (snd (time_Now D w))"

text \<open>
  What a cursor delivers: the rows, or the first error among \<^verbatim>\<open>Columns\<close>, the \<^verbatim>\<open>Scan\<close>
  calls and \<^verbatim>\<open>Err\<close>.
\<close>

fun cursor_values :: "(error + any list) list \<Rightarrow> error + any list list" where
  "cursor_values [] = Inr []"
| "cursor_values (Inl e # rest) = Inl e"
| "cursor_values (Inr values # rest) =
     (case cursor_values rest of Inl e \<Rightarrow> Inl e | Inr vs \<Rightarrow> Inr (values # vs))"

definition cursor_rows :: "cursor \<Rightarrow> error + (string \<rightharpoonup> any) list" where
  "cursor_rows c =
     (case Columns c of
        Inl e \<Rightarrow> Inl e
      | Inr columns \<Rightarrow>
          (case cursor_values (Scans c) of
             Inl e \<Rightarrow> Inl e
           | Inr vs \<Rightarrow>
               (case RowsErr c of
                  Some e \<Rightarrow> Inl e
                | None \<Rightarrow> Inr (map (createRowMap columns) vs))))"

text \<open>
  What the engine answers to one statement: the statement is prepared, the prepared
  statement is queried and its rows are read; the answer is the engine's error, or the
  rows and the world afterwards.  The clock is read twice before each of the two calls
  and five times after them.
\<close>

definition engine_answer ::
    "'w driver \<Rightarrow> string \<Rightarrow> 'w \<Rightarrow> error + ((string \<rightharpoonup> any) list \<times> 'w)" where
  "engine_answer D q w =
     (case db_Prepare D q (ticks D 2 w) of
        (Some e, w1) \<Rightarrow> Inl e
      | (None, w1) \<Rightarrow>
          (case stmt_Query D q (ticks D 2 w1) of
             (Inl e, w2) \<Rightarrow> Inl e
           | (Inr c, w2) \<Rightarrow>
               (case cursor_rows c of
                  Inl e \<Rightarrow> Inl e
                | Inr rows \<Rightarrow> Inr (rows, ticks D 5 w2))))"

text \<open>
  The answers to a list of statements, each handed to the engine in the world the one
  before it left; the first error ends the run.
\<close>

fun engine_run ::
    "'w driver \<Rightarrow> string list \<Rightarrow> 'w \<Rightarrow> error + ((string \<rightharpoonup> any) list list \<times> 'w)" where
  "engine_run D [] w = Inr ([], w)"
| "engine_run D (q # qs) w =
     (case engine_answer D q w of
        Inl e \<Rightarrow> Inl e
      | Inr (rows, w1) \<Rightarrow>
          (case engine_run D qs w1 of
             Inl e \<Rightarrow> Inl e
           | Inr (rs, w2) \<Rightarrow> Inr (rows # rs, w2)))"

text \<open>
  The calls on the engine that a statement which succeeds is made of, the calls of a
  statement that fails (in \<^verbatim>\<open>Prepare\<close>, in \<^verbatim>\<open>Query\<close>, or later), and the contexts which
  the code puts in front of an error of the engine.
\<close>

definition statement_calls :: "string \<Rightarrow> call list" where
  "statement_calls q = [Prepare q, Query q, CloseRows, CloseStmt]"

definition failed_calls :: "string \<Rightarrow> call list list" where
  "failed_calls q =
     [[Prepare q], [Prepare q, Query q, CloseStmt], [Prepare q, Query q, CloseRows, CloseStmt]]"

definition error_contexts :: "string list" where
  "error_contexts =
     [''failed to prepare query: '', ''failed to execute query: '',
      ''failed to get column names: '', ''failed to scan row: '',
      ''error during row iteration: '']"

subsection \<open>Close\<close>

text \<open>
  A call either returns or panics.  \<^verbatim>\<open>Close\<close> calls the cancel function (a nil function
  value panics), closes the connection, and removes the database file and its
  write-ahead log; a file that is not there is not an error.
\<close>

datatype 'a outcome = Panic | Return 'a

definition close_db :: "'w driver \<Rightarrow> 'w state \<Rightarrow> error option \<times> 'w state" where
  "close_db D st =
     (case db_Close D (world st) of
        (r, w) \<Rightarrow> (r, st\<lparr>world := w, calls := calls st @ [CloseDB]\<rparr>))"

definition remove_file :: "'w driver \<Rightarrow> string \<Rightarrow> 'w state \<Rightarrow> error option \<times> 'w state" where
  "remove_file D path st =
     (case os_Remove D path (world st) of (r, w) \<Rightarrow> (r, st\<lparr>world := w\<rparr>))"

definition Close :: "'w driver \<Rightarrow> DuckDB \<Rightarrow> 'w state \<Rightarrow> error option outcome \<times> 'w state" where
  "Close D h st =
     (if \<not> cancelFunc h then (Panic, st)
      else
        let s1 = st\<lparr>world := ctx_cancel D (world st)\<rparr> in
        case (if db h \<noteq> None then close_db D s1 else (None, s1)) of
          (Some err, s2) \<Rightarrow>
            (Return (Some (Errorf_w ''failed to close database connection: '' err)), s2)
        | (None, s2) \<Rightarrow>
        case remove_file D (dbPath h) s2 of
          (Some err, s3) \<Rightarrow>
            if \<not> IsNotExist err then
              (Return (Some (Errorf_w ''failed to remove database file: '' err)), s3)
            else (case remove_file D (dbPath h @ ''.wal'') s3 of (ignored, s4) \<Rightarrow> (Return None, s4))
        | (None, s3) \<Rightarrow>
            (case remove_file D (dbPath h @ ''.wal'') s3 of (ignored, s4) \<Rightarrow> (Return None, s4)))"

subsection \<open>A simulated engine\<close>

text \<open>
  One concrete driver, for running the code on examples.  Its connection behaves as
  \<^verbatim>\<open>database/sql\<close> documents it: \<^verbatim>\<open>DB.Close\<close> is idempotent and returns nil when the
  database is closed already, and statements on a closed database fail.  Removing a
  file that is not there reports that it does not exist.  The clock advances by one
  millisecond at every reading.  A statement that names the table \<^verbatim>\<open>nosuch\<close> fails in
  \<^verbatim>\<open>Prepare\<close>; every other statement returns the one row \<^verbatim>\<open>n = 1\<close>.
\<close>

record sim =
  clock :: int
  closed :: bool
  files :: "string list"

definition sim_cursor :: cursor where
  "sim_cursor = \<lparr> Columns = Inr [''n''], Scans = [Inr [AnyInt 1]], RowsErr = None \<rparr>"

definition sim_driver :: "sim driver" where
  "sim_driver =
     \<lparr> time_Now = (\<lambda>w. (clock w, w\<lparr>clock := clock w + 1000000\<rparr>)),
       db_Prepare = (\<lambda>q w.
          if closed w then (Some (New ''sql: database is closed''), w)
          else if strings_Contains q ''nosuch'' then
            (Some (New ''Catalog Error: Table with name nosuch does not exist!''), w)
          else (None, w)),
       stmt_Query = (\<lambda>q w. (Inr sim_cursor, w)),
       db_Exec = (\<lambda>q w.
          if closed w then (Some (New ''sql: database is closed''), w) else (None, w)),
       db_Close = (\<lambda>w. (None, w\<lparr>closed := True\<rparr>)),
       os_Remove = (\<lambda>path w.
          if path \<in> set (files w) then (None, w\<lparr>files := removeAll path (files w)\<rparr>)
          else (Some (PathError ''remove'' path ENOENT), w)),
       ctx_cancel = (\<lambda>w. w) \<rparr>"

definition sim_handle :: DuckDB where
  "sim_handle = \<lparr> db = Some (), dbPath = ''/tmp/duckdb_1.db'', cancelFunc = True \<rparr>"

definition sim_start :: "sim state" where
  "sim_start =
     \<lparr> world = \<lparr> clock = 0, closed = False, files = [''/tmp/duckdb_1.db''] \<rparr>,
       calls = [] \<rparr>"

text \<open>
  A second driver, whose rows depend on the statement: the answer to a statement is one
  row that holds the text of the statement.
\<close>

definition echo_driver :: "sim driver" where
  "echo_driver =
     sim_driver\<lparr> stmt_Query := (\<lambda>q w.
        (Inr \<lparr> Columns = Inr [''statement''], Scans = [Inr [AnyBytes q]], RowsErr = None \<rparr>, w)) \<rparr>"

section \<open>Facts about runes\<close>

subsection \<open>Decoding what was encoded\<close>

lemma mod_off: "a < m \<Longrightarrow> (k * m + a) mod m = (a::nat)"
  by simp

lemma split3: "(r::nat) = 4096 * (r div 4096) + 64 * ((r div 64) mod 64) + r mod 64"
proof -
  have "r div 4096 = (r div 64) div 64" by (simp add: div_mult2_eq)
  then have "r div 64 = 64 * (r div 4096) + (r div 64) mod 64" by simp
  moreover have "r = 64 * (r div 64) + r mod 64" by simp
  ultimately show ?thesis by linarith
qed

lemma split4: "(r::nat) = 262144 * (r div 262144) + 4096 * ((r div 4096) mod 64) + 64 * ((r div 64) mod 64) + r mod 64"
proof -
  have "r div 262144 = (r div 4096) div 64" by (simp add: div_mult2_eq)
  then have "r div 4096 = 64 * (r div 262144) + (r div 4096) mod 64" by simp
  with split3 [of r] show ?thesis by linarith
qed

lemma byte_id: "n < 256 \<Longrightarrow> of_char (char_of (n::nat) :: char) = n"
  by simp

lemma decode2:
  assumes a: "2 \<le> a" "a < 32" and b: "b < 64"
  shows "decodeRune (char_of (192 + a) # char_of (128 + b) # bs) = (64 * a + b, 2)"
proof -
  have m0: "of_char (char_of (192 + a) :: char) = 192 + a" using a by (intro byte_id) simp
  have m1: "of_char (char_of (128 + b) :: char) = 128 + b" using b by (intro byte_id) simp
  have l: "lead_info (192 + a) = Some (2, 128, 191)" using a by (simp add: lead_info_def)
  have x0: "(192 + a) mod 32 = a" using mod_off [of a 32 6] a by simp
  have x1: "(128 + b) mod 64 = b" using mod_off [of b 64 2] b by simp
  show ?thesis
    using b by (simp add: m0 m1 l x0 x1 del: of_char_of)
qed

lemma decode3:
  assumes a: "a < 16" and b: "b < 64" and c: "c < 64"
    and l: "lead_info (224 + a) = Some (3, lo, hi)" and lo: "lo \<le> 128 + b" and hi: "128 + b \<le> hi"
  shows "decodeRune (char_of (224 + a) # char_of (128 + b) # char_of (128 + c) # bs)
           = (4096 * a + 64 * b + c, 3)"
proof -
  have m0: "of_char (char_of (224 + a) :: char) = 224 + a" using a by (intro byte_id) simp
  have m1: "of_char (char_of (128 + b) :: char) = 128 + b" using b by (intro byte_id) simp
  have m2: "of_char (char_of (128 + c) :: char) = 128 + c" using c by (intro byte_id) simp
  have x0: "(224 + a) mod 16 = a" using mod_off [of a 16 14] a by simp
  have x1: "(128 + b) mod 64 = b" using mod_off [of b 64 2] b by simp
  have x2: "(128 + c) mod 64 = c" using mod_off [of c 64 2] c by simp
  have nlo: "\<not> 128 + b < lo" and nhi: "\<not> hi < 128 + b" using lo hi by simp_all
  have cb: "cont_byte (128 + c)" using c by (simp add: cont_byte_def)
  show ?thesis
    by (simp add: Let_def m0 m1 m2 l x0 x1 x2 nlo nhi cb del: of_char_of)
qed

lemma decode4:
  assumes a: "a \<le> 4" and b: "b < 64" and c: "c < 64" and d: "d < 64"
    and l: "lead_info (240 + a) = Some (4, lo, hi)" and lo: "lo \<le> 128 + b" and hi: "128 + b \<le> hi"
  shows "decodeRune (char_of (240 + a) # char_of (128 + b) # char_of (128 + c) # char_of (128 + d) # bs)
           = (262144 * a + 4096 * b + 64 * c + d, 4)"
proof -
  have m0: "of_char (char_of (240 + a) :: char) = 240 + a" using a by (intro byte_id) simp
  have m1: "of_char (char_of (128 + b) :: char) = 128 + b" using b by (intro byte_id) simp
  have m2: "of_char (char_of (128 + c) :: char) = 128 + c" using c by (intro byte_id) simp
  have m3: "of_char (char_of (128 + d) :: char) = 128 + d" using d by (intro byte_id) simp
  have x0: "(240 + a) mod 8 = a" using mod_off [of a 8 30] a by simp
  have x1: "(128 + b) mod 64 = b" using mod_off [of b 64 2] b by simp
  have x2: "(128 + c) mod 64 = c" using mod_off [of c 64 2] c by simp
  have x3: "(128 + d) mod 64 = d" using mod_off [of d 64 2] d by simp
  have nlo: "\<not> 128 + b < lo" and nhi: "\<not> hi < 128 + b" using lo hi by simp_all
  have cb: "cont_byte (128 + c)" "cont_byte (128 + d)" using c d by (simp_all add: cont_byte_def)
  show ?thesis
    by (simp add: Let_def m0 m1 m2 m3 l x0 x1 x2 x3 nlo nhi cb del: of_char_of)
qed


lemma decode_encode:
  assumes "valid_scalar r"
  shows "decodeRune (encodeRune r @ bs) = (r, length (encodeRune r))"
proof -
  consider (one) "r < 128" | (two) "128 \<le> r" "r \<le> 2047"
    | (three) "2048 \<le> r" "r \<le> 65535" | (four) "65536 \<le> r" "r \<le> 1114111"
    using assms unfolding valid_scalar_def by linarith
  then show ?thesis
  proof cases
    case one
    then show ?thesis by (simp add: encodeRune_def)
  next
    case two
    define a b where "a = r div 64" and "b = r mod 64"
    have r: "r = 64 * a + b" and b: "b < 64" by (simp_all add: a_def b_def)
    have a: "2 \<le> a" "a < 32" using two by (simp_all add: a_def)
    have e: "encodeRune r = [char_of (192 + a), char_of (128 + b)]"
      using two by (simp add: encodeRune_def a_def b_def)
    show ?thesis
      unfolding e using decode2 [OF a b, of bs] r by simp
  next
    case three
    define a b c where "a = r div 4096" and "b = (r div 64) mod 64" and "c = r mod 64"
    have r: "r = 4096 * a + 64 * b + c" unfolding a_def b_def c_def by (rule split3)
    have b: "b < 64" and c: "c < 64" by (simp_all add: b_def c_def)
    have a: "a < 16" using three by (simp add: a_def)
    have ns: "\<not> (55296 \<le> r \<and> r \<le> 57343)"
      using assms unfolding valid_scalar_def by linarith
    have e: "encodeRune r = [char_of (224 + a), char_of (128 + b), char_of (128 + c)]"
      using three ns by (auto simp add: encodeRune_def a_def b_def c_def)
    have a0: "a = 0 \<Longrightarrow> 32 \<le> b" using three r c by linarith
    have a13: "a = 13 \<Longrightarrow> b < 32" using ns r b c by arith
    have l: "lead_info (224 + a) =
        Some (3, if a = 0 then 160 else 128, if a = 13 then 159 else 191)"
      using a by (simp add: lead_info_def)
    have lo: "(if a = 0 then 160 else 128) \<le> 128 + b" using a0 by auto
    have hi: "128 + b \<le> (if a = 13 then 159 else 191)" using a13 b by auto
    show ?thesis
      unfolding e using decode3 [OF a b c l lo hi, of bs] r by simp
  next
    case four
    define a b c d where "a = r div 262144" and "b = (r div 4096) mod 64"
      and "c = (r div 64) mod 64" and "d = r mod 64"
    have r: "r = 262144 * a + 4096 * b + 64 * c + d"
      unfolding a_def b_def c_def d_def by (rule split4)
    have b: "b < 64" and c: "c < 64" and d: "d < 64" by (simp_all add: b_def c_def d_def)
    have a: "a \<le> 4" using four by (simp add: a_def)
    have e: "encodeRune r =
        [char_of (240 + a), char_of (128 + b), char_of (128 + c), char_of (128 + d)]"
      using four by (simp add: encodeRune_def a_def b_def c_def d_def)
    have a0: "a = 0 \<Longrightarrow> 16 \<le> b" using four r c d by linarith
    have a4: "a = 4 \<Longrightarrow> b < 16" using four r c d by linarith
    have l: "lead_info (240 + a) =
        Some (4, if a = 0 then 144 else 128, if a = 4 then 143 else 191)"
      using a by (simp add: lead_info_def)
    have lo: "(if a = 0 then 144 else 128) \<le> 128 + b" using a0 by auto
    have hi: "128 + b \<le> (if a = 4 then 143 else 191)" using a4 b by auto
    show ?thesis
      unfolding e using decode4 [OF a b c d l lo hi, of bs] r by simp
  qed
qed


lemma mod_range: "k * m \<le> x \<Longrightarrow> x < k * m + m \<Longrightarrow> x mod m = x - k * (m::nat)"
proof -
  assume a: "k * m \<le> x" "x < k * m + m"
  then have "x = k * m + (x - k * m)" "x - k * m < m" by simp_all
  then show ?thesis by (metis mod_off)
qed

lemma lead_info_cases:
  assumes "lead_info b0 = Some (sz, lo, hi)"
  shows "(sz = 2 \<and> lo = 128 \<and> hi = 191 \<and> 194 \<le> b0 \<and> b0 \<le> 223)
       \<or> (sz = 3 \<and> 224 \<le> b0 \<and> b0 \<le> 239 \<and> 128 \<le> lo \<and> hi \<le> 191
            \<and> (b0 = 237 \<longrightarrow> hi = 159) \<and> (b0 = 224 \<longrightarrow> lo = 160))
       \<or> (sz = 4 \<and> 240 \<le> b0 \<and> b0 \<le> 244 \<and> 128 \<le> lo \<and> hi \<le> 191
            \<and> (b0 = 240 \<longrightarrow> lo = 144) \<and> (b0 = 244 \<longrightarrow> hi = 143))"
  using assms by (auto simp: lead_info_def split: if_splits)

lemma valid2:
  assumes "194 \<le> b0" "b0 \<le> 223" "128 \<le> b1" "b1 \<le> (191::nat)"
  shows "valid_scalar ((b0 mod 32) * 64 + b1 mod 64)"
proof -
  have "b0 mod 32 < 32" "b1 mod 64 < 64" by simp_all
  then show ?thesis unfolding valid_scalar_def by linarith
qed

lemma v3:
  assumes "x \<le> 15" "y < 64" "z < 64" "x = 13 \<longrightarrow> y < 32"
  shows "valid_scalar (x * 4096 + y * 64 + (z::nat))"
proof -
  consider "x \<le> 12" | "x = 13" | "14 \<le> x" by linarith
  then show ?thesis
  proof cases
    case 1
    then have "x * 4096 + y * 64 + z < 55296" using assms by linarith
    then show ?thesis by (simp add: valid_scalar_def)
  next
    case 2
    then have "x * 4096 + y * 64 + z < 55296" using assms by simp
    then show ?thesis by (simp add: valid_scalar_def)
  next
    case 3
    then have "57344 \<le> x * 4096 + y * 64 + z \<and> x * 4096 + y * 64 + z \<le> 1114111"
      using assms by linarith
    then show ?thesis by (simp add: valid_scalar_def)
  qed
qed

lemma v4:
  "x \<le> 4 \<Longrightarrow> y < 64 \<Longrightarrow> z < 64 \<Longrightarrow> w < 64 \<Longrightarrow> (x = 0 \<longrightarrow> 16 \<le> y) \<Longrightarrow> (x = 4 \<longrightarrow> y < 16)
   \<Longrightarrow> valid_scalar (x * 262144 + y * 4096 + z * 64 + (w::nat))"
  unfolding valid_scalar_def by arith

lemma valid3:
  assumes b0: "224 \<le> b0" "b0 \<le> 239" and b1: "lo \<le> b1" "b1 \<le> hi" and lh: "128 \<le> lo" "hi \<le> 191"
    and ed: "b0 = 237 \<longrightarrow> hi = 159"
  shows "valid_scalar ((b0 mod 16) * 4096 + (b1 mod 64) * 64 + b2 mod 64)"
proof -
  have m0: "b0 mod 16 = b0 - 224" using mod_range [of 14 16 b0] b0 by simp
  have m1: "b1 mod 64 = b1 - 128" using mod_range [of 2 64 b1] b1 lh by simp
  have x: "b0 mod 16 \<le> 15" and y: "b1 mod 64 < 64" and z: "b2 mod 64 < 64"
    using b0 by (simp_all add: m0)
  have xy: "b0 mod 16 = 13 \<longrightarrow> b1 mod 64 < 32"
    unfolding m0 m1 using b0 b1 ed by auto
  show ?thesis by (rule v3 [OF x y z xy])
qed

lemma valid4:
  assumes b0: "240 \<le> b0" "b0 \<le> 244" and b1: "lo \<le> b1" "b1 \<le> hi" and lh: "128 \<le> lo" "hi \<le> 191"
    and f0: "b0 = 240 \<longrightarrow> lo = 144" and f4: "b0 = 244 \<longrightarrow> hi = 143"
  shows "valid_scalar ((b0 mod 8) * 262144 + (b1 mod 64) * 4096 + (b2 mod 64) * 64 + b3 mod 64)"
proof -
  have m0: "b0 mod 8 = b0 - 240" using mod_range [of 30 8 b0] b0 by simp
  have m1: "b1 mod 64 = b1 - 128" using mod_range [of 2 64 b1] b1 lh by simp
  have x: "b0 mod 8 \<le> 4" and y: "b1 mod 64 < 64" and z: "b2 mod 64 < 64" and w: "b3 mod 64 < 64"
    using b0 by (simp_all add: m0)
  have x0: "b0 mod 8 = 0 \<longrightarrow> 16 \<le> b1 mod 64"
    unfolding m0 m1 using b0 b1 f0 by auto
  have x4: "b0 mod 8 = 4 \<longrightarrow> b1 mod 64 < 16"
    unfolding m0 m1 using b0 b1 f4 by auto
  show ?thesis by (rule v4 [OF x y z w x0 x4])
qed

lemma valid_RuneError: "valid_scalar RuneError"
  by (simp add: valid_scalar_def RuneError_def)

lemma decode_lead2:
  assumes "\<not> (of_char c0 :: nat) < 128" "lead_info (of_char c0) = Some (2, lo, hi)"
    and "\<And>b1. \<not> b1 < lo \<Longrightarrow> \<not> hi < b1 \<Longrightarrow> P ((of_char c0 mod 32) * 64 + b1 mod 64)"
    and "P RuneError"
  shows "P (fst (decodeRune (c0 # cs)))"
  using assms by (simp add: Let_def split: list.splits)

lemma decode_lead3:
  assumes "\<not> (of_char c0 :: nat) < 128" "lead_info (of_char c0) = Some (3, lo, hi)"
    and "\<And>b1 b2. \<not> b1 < lo \<Longrightarrow> \<not> hi < b1
          \<Longrightarrow> P ((of_char c0 mod 16) * 4096 + (b1 mod 64) * 64 + b2 mod 64)"
    and "P RuneError"
  shows "P (fst (decodeRune (c0 # cs)))"
  using assms by (simp add: Let_def split: list.splits)

lemma decode_lead4:
  assumes "\<not> (of_char c0 :: nat) < 128" "lead_info (of_char c0) = Some (4, lo, hi)"
    and "\<And>b1 b2 b3. \<not> b1 < lo \<Longrightarrow> \<not> hi < b1
          \<Longrightarrow> P ((of_char c0 mod 8) * 262144 + (b1 mod 64) * 4096 + (b2 mod 64) * 64 + b3 mod 64)"
    and "P RuneError"
  shows "P (fst (decodeRune (c0 # cs)))"
  using assms by (simp add: Let_def split: list.splits)

lemma decodeRune_valid: "valid_scalar (fst (decodeRune s))"
proof (cases s)
  case Nil
  then show ?thesis by (simp add: valid_RuneError)
next
  case (Cons c0 cs)
  show ?thesis
  proof (cases "(of_char c0 :: nat) < 128")
    case True
    then show ?thesis unfolding Cons by (simp add: valid_scalar_def)
  next
    case False
    show ?thesis
    proof (cases "lead_info (of_char c0)")
      case None
      then show ?thesis unfolding Cons using False by (simp add: valid_RuneError)
    next
      case (Some t)
      obtain sz lo hi where t: "t = (sz, lo, hi)" by (cases t) auto
      have l: "lead_info (of_char c0) = Some (sz, lo, hi)" using Some t by simp
      note li = lead_info_cases [OF l]
      from li consider (two) "sz = 2" | (three) "sz = 3" | (four) "sz = 4" by auto
      then show ?thesis
      proof cases
        case two
        have v: "\<And>b1. \<not> b1 < lo \<Longrightarrow> \<not> hi < b1
            \<Longrightarrow> valid_scalar ((of_char c0 mod 32) * 64 + b1 mod 64)"
          using li two valid2 by auto
        show ?thesis unfolding Cons
          by (rule decode_lead2 [OF False l [unfolded two] v valid_RuneError])
      next
        case three
        have v: "\<And>b1 b2. \<not> b1 < lo \<Longrightarrow> \<not> hi < b1
            \<Longrightarrow> valid_scalar ((of_char c0 mod 16) * 4096 + (b1 mod 64) * 64 + b2 mod 64)"
          using li three valid3 [of "of_char c0" lo _ hi] by auto
        show ?thesis unfolding Cons
          by (rule decode_lead3 [OF False l [unfolded three] v valid_RuneError])
      next
        case four
        have v: "\<And>b1 b2 b3. \<not> b1 < lo \<Longrightarrow> \<not> hi < b1
            \<Longrightarrow> valid_scalar ((of_char c0 mod 8) * 262144 + (b1 mod 64) * 4096
                  + (b2 mod 64) * 64 + b3 mod 64)"
          using li four valid4 [of "of_char c0" lo _ hi] by auto
        show ?thesis unfolding Cons
          by (rule decode_lead4 [OF False l [unfolded four] v valid_RuneError])
      qed
    qed
  qed
qed

lemma tokens_valid: "t \<in> set (tokens s) \<Longrightarrow> valid_scalar (fst t)"
proof (induction s arbitrary: t rule: tokens.induct)
  case 1
  then show ?case by simp
next
  case (2 c cs)
  obtain r sz where d: "decodeRune (c # cs) = (r, sz)" by (cases "decodeRune (c # cs)")
  have v: "valid_scalar r" using decodeRune_valid [of "c # cs"] d by simp
  have tk: "tokens (c # cs) = (r, c # take (sz - 1) cs) # tokens (drop (sz - 1) cs)"
    using d by (simp del: decodeRune.simps)
  from "2.prems" have "t = (r, c # take (sz - 1) cs) \<or> t \<in> set (tokens (drop (sz - 1) cs))"
    unfolding tk by simp
  then show ?case
  proof
    assume "t = (r, c # take (sz - 1) cs)"
    then show ?thesis using v by simp
  next
    assume a: "t \<in> set (tokens (drop (sz - 1) cs))"
    show ?thesis by (rule "2.IH" [OF d [symmetric] a])
  qed
qed


lemma runes_valid: "r \<in> set (runes s) \<Longrightarrow> valid_scalar r"
  unfolding runes_def using tokens_valid by auto

lemma encodeRune_nonempty: "encodeRune r \<noteq> []"
  by (simp add: encodeRune_def)

lemma tokens_encodeRune:
  assumes "valid_scalar r"
  shows "tokens (encodeRune r @ bs) = (r, encodeRune r) # tokens bs"
proof -
  obtain c cs where e: "encodeRune r = c # cs"
    using encodeRune_nonempty [of r] by (cases "encodeRune r") auto
  have d: "decodeRune (c # cs @ bs) = (r, Suc (length cs))"
    using decode_encode [OF assms, of bs] e by simp
  have "tokens (c # cs @ bs) = (r, c # cs) # tokens bs"
    using d by (simp del: decodeRune.simps)
  then show ?thesis unfolding e by simp
qed

lemma tokens_encodeRunes:
  "list_all valid_scalar rs
   \<Longrightarrow> tokens (encodeRunes rs @ bs) = map (\<lambda>r. (r, encodeRune r)) rs @ tokens bs"
proof (induction rs)
  case Nil
  then show ?case by (simp add: encodeRunes_def)
next
  case (Cons r rs)
  then have v: "valid_scalar r"
    and IH: "tokens (encodeRunes rs @ bs) = map (\<lambda>r. (r, encodeRune r)) rs @ tokens bs"
    by simp_all
  have "tokens (encodeRunes (r # rs) @ bs) = tokens (encodeRune r @ (encodeRunes rs @ bs))"
    by (simp add: encodeRunes_def)
  also have "\<dots> = (r, encodeRune r) # tokens (encodeRunes rs @ bs)"
    by (rule tokens_encodeRune [OF v])
  finally show ?case using IH by simp
qed

lemma runes_encodeRunes:
  "list_all valid_scalar rs \<Longrightarrow> runes (encodeRunes rs @ bs) = rs @ runes bs"
  by (simp add: runes_def tokens_encodeRunes comp_def)

lemma tokens_bytes: "concat (map snd (tokens s)) = s"
proof (induction s rule: tokens.induct)
  case 1
  then show ?case by simp
next
  case (2 c cs)
  obtain r sz where d: "decodeRune (c # cs) = (r, sz)" by (cases "decodeRune (c # cs)")
  have tk: "tokens (c # cs) = (r, c # take (sz - 1) cs) # tokens (drop (sz - 1) cs)"
    using d by (simp del: decodeRune.simps)
  show ?case unfolding tk using "2.IH" [OF d [symmetric]] by simp
qed

subsection \<open>Table names\<close>

lemma allowedRune_ascii: "allowedRune r \<Longrightarrow> r < 0x80"
  by (auto simp: allowedRune_def)

lemma allowedRune_sanitizeRune: "allowedRune (sanitizeRune r)"
  by (simp add: sanitizeRune_def allowedRune_def)

lemma tokens_ascii_Cons:
  "of_char c < (0x80::nat) \<Longrightarrow> tokens (c # cs) = (of_char c, [c]) # tokens cs"
  by simp

lemma runes_encode_ascii:
  "\<forall>r \<in> set rs. r < 0x80 \<Longrightarrow> runes (encodeRunes rs) = rs"
proof (induction rs)
  case Nil
  then show ?case by (simp add: runes_def encodeRunes_def)
next
  case (Cons r rs)
  then have r: "r < 0x80" and rest: "runes (encodeRunes rs) = rs" by simp_all
  have "encodeRunes (r # rs) = char_of r # encodeRunes rs"
    using r by (simp add: encodeRunes_def encodeRune_def)
  moreover have "of_char (char_of r :: char) = r"
    using r by simp
  ultimately show ?case
    using r rest by (simp add: runes_def)
qed

subsection \<open>The split state machine\<close>

lemma encodeRunes_append: "encodeRunes (a @ b) = encodeRunes a @ encodeRunes b"
  by (simp add: encodeRunes_def)

lemma encodeRunes_Nil_iff: "encodeRunes rs = [] \<longleftrightarrow> rs = []"
  by (cases rs) (simp_all add: encodeRunes_def encodeRune_nonempty)

lemma split_loop_runes:
  "split_loop rs q e (encodeRunes cur) (map encodeRunes acc)
     = map encodeRunes (split_r rs q e cur acc)"
proof (induction rs q e cur acc rule: split_r.induct)
  case (1 q e cur acc)
  show ?case using encodeRunes_Nil_iff [of cur] by auto
next
  case (2 ch rest q e cur acc)
  have a: "encodeRunes cur @ encodeRune ch = encodeRunes (cur @ [ch])"
    by (simp add: encodeRunes_def)
  have b: "map encodeRunes acc @ [encodeRunes cur] = map encodeRunes (acc @ [cur])"
    by simp
  have n: "([]::string) = encodeRunes []" by (simp add: encodeRunes_def)
  show ?case
    apply (subst split_loop.simps)
    apply (subst split_r.simps)
    apply (simp only: a b)
    using 2 n by (auto simp del: split_loop.simps split_r.simps map_append)
qed


lemma split_r_acc: "split_r rs q e cur acc = acc @ split_r rs q e cur []"
proof (induction rs arbitrary: q e cur acc)
  case Nil
  show ?case by simp
next
  case (Cons ch rest)
  have sep: "\<And>q' e'. split_r rest q' e' [] (acc @ [cur]) = acc @ split_r rest q' e' [] [cur]"
  proof -
    fix q' e'
    show "split_r rest q' e' [] (acc @ [cur]) = acc @ split_r rest q' e' [] [cur]"
      using Cons [of q' e' "[]" "acc @ [cur]"] Cons [of q' e' "[]" "[cur]"] by simp
  qed
  have nonsep: "\<And>q' e' c. split_r rest q' e' c acc = acc @ split_r rest q' e' c []"
    by (rule Cons)
  have L: "split_r (ch # rest) q e cur acc =
     (if e then acc @ split_r rest q False (cur @ [ch]) []
      else if ch = of_char (CHR 0x5C) then acc @ split_r rest q True (cur @ [ch]) []
      else if ch = of_char (CHR 0x22) \<or> ch = of_char (CHR 0x27) then
        acc @ split_r rest (\<not> q) e (cur @ [ch]) []
      else if ch = of_char CHR '';'' \<and> \<not> q then
        acc @ split_r rest q e [] [cur]
      else acc @ split_r rest q e (cur @ [ch]) [])"
    unfolding split_r.simps(2) [of ch rest q e cur acc]
    by (simp only: sep nonsep [symmetric])
  have R: "split_r (ch # rest) q e cur [] =
     (if e then split_r rest q False (cur @ [ch]) []
      else if ch = of_char (CHR 0x5C) then split_r rest q True (cur @ [ch]) []
      else if ch = of_char (CHR 0x22) \<or> ch = of_char (CHR 0x27) then
        split_r rest (\<not> q) e (cur @ [ch]) []
      else if ch = of_char CHR '';'' \<and> \<not> q then
        split_r rest q e [] [cur]
      else split_r rest q e (cur @ [ch]) [])"
    unfolding split_r.simps(2) [of ch rest q e cur "[]"] by simp
  show ?case unfolding L R by (simp only: if_distrib [of "\<lambda>x. acc @ x"] cong: if_cong) 
qed

lemma quote_scan_append:
  "quote_scan (a @ b) q e = (case quote_scan a q e of None \<Rightarrow> None | Some (q', e') \<Rightarrow> quote_scan b q' e')"
  by (induction a q e rule: quote_scan.induct) auto

lemma split_r_quote_scan:
  "quote_scan s q e = Some (q', e') \<Longrightarrow> split_r (s @ rest) q e cur acc = split_r rest q' e' (cur @ s) acc"
proof (induction s q e arbitrary: cur rule: quote_scan.induct)
  case (1 q e)
  then show ?case by simp
next
  case (2 ch s q e)
  from "2.prems" show ?case
    using "2.IH" by (auto split: if_splits)
qed

lemma segments_ok_Cons: "quote_scan s False False = Some (False, False) \<Longrightarrow> segments_ok t \<Longrightarrow> segments_ok (s # t)"
  by (cases t) simp_all

lemma segments_ok_filter: "segments_ok S \<Longrightarrow> segments_ok (filter P S)"
proof (induction S rule: segments_ok.induct)
  case 1
  then show ?case by simp
next
  case (2 s)
  then show ?case by simp
next
  case (3 s t r)
  then have c: "quote_scan s False False = Some (False, False)" and g: "segments_ok (filter P (t # r))"
    by simp_all
  show ?case
  proof (cases "P s")
    case True
    then have "filter P (s # t # r) = s # filter P (t # r)" by simp
    then show ?thesis using segments_ok_Cons [OF c g] by simp
  next
    case False
    then have "filter P (s # t # r) = filter P (t # r)" by simp
    then show ?thesis using g by simp
  qed
qed

lemma split_r_segments_ok:
  "quote_scan cur False False = Some (q, e) \<Longrightarrow> segments_ok (split_r rs q e cur [])"
proof (induction rs arbitrary: q e cur)
  case Nil
  then show ?case by simp
next
  case (Cons ch rest)
  note cur = Cons.prems
  have ext: "quote_scan (cur @ [ch]) False False = quote_scan [ch] q e"
    using cur by (simp add: quote_scan_append)
  show ?case
  proof (cases "quote_scan [ch] q e")
    case None
    then have sep: "\<not> e" "ch \<noteq> of_char (CHR 0x5C)"
        "\<not> (ch = of_char (CHR 0x22) \<or> ch = of_char (CHR 0x27))" "ch = of_char CHR '';''" "\<not> q"
      by (auto split: if_splits)
    have "split_r (ch # rest) q e cur [] = split_r rest False False [] [cur]"
      using sep by simp
    also have "\<dots> = cur # split_r rest False False [] []"
      using split_r_acc [of rest False False "[]" "[cur]"] by simp
    finally have eq: "split_r (ch # rest) q e cur [] = cur # split_r rest False False [] []" .
    have c: "quote_scan cur False False = Some (False, False)" using cur sep by simp
    have g: "segments_ok (split_r rest False False [] [])"
      by (rule Cons.IH) simp
    show ?thesis unfolding eq by (rule segments_ok_Cons [OF c g])
  next
    case (Some st)
    obtain q' e' where st: "st = (q', e')" by (cases st)
    have r: "quote_scan (cur @ [ch]) False False = Some (q', e')" using ext Some st by simp
    have "split_r ([ch] @ rest) q e cur [] = split_r rest q' e' (cur @ [ch]) []"
      using split_r_quote_scan [of "[ch]" q e q' e' rest cur "[]"] Some st by simp
    then show ?thesis using Cons.IH [OF r] by simp
  qed
qed

lemma resplit:
  "segments_ok S \<Longrightarrow> \<forall>s \<in> set S. s \<noteq> [] \<Longrightarrow> split_r (join_runes S) False False [] [] = S"
proof (induction S rule: segments_ok.induct)
  case 1
  then show ?case by simp
next
  case (2 s)
  then obtain q e where r: "quote_scan s False False = Some (q, e)" by auto
  have "split_r (s @ []) False False [] [] = split_r [] q e ([] @ s) []"
    by (rule split_r_quote_scan [OF r])
  then show ?case using 2 by simp
next
  case (3 s t r)
  then have c: "quote_scan s False False = Some (False, False)"
    and IH: "split_r (join_runes (t # r)) False False [] [] = t # r"
    by simp_all
  have "split_r (s @ (of_char CHR '';'' # join_runes (t # r))) False False [] []
      = split_r (of_char CHR '';'' # join_runes (t # r)) False False ([] @ s) []"
    by (rule split_r_quote_scan [OF c])
  also have "\<dots> = split_r (join_runes (t # r)) False False [] [s]"
    by simp
  also have "\<dots> = s # split_r (join_runes (t # r)) False False [] []"
    using split_r_acc [of "join_runes (t # r)" False False "[]" "[s]"] by simp
  finally show ?case using IH by simp
qed

lemma split_r_subset:
  "set (concat (split_r rs q e cur acc)) \<subseteq> set rs \<union> set cur \<union> set (concat acc)"
  by (induction rs q e cur acc rule: split_r.induct) (auto split: if_splits)


lemma encodeRune_semicolon: "encodeRune (of_char CHR '';'') = '';''"
  by (simp add: encodeRune_def char_of_eq_iff)

lemma strings_Join_runes:
  "strings_Join (map encodeRunes S) '';'' = encodeRunes (join_runes S)"
proof (induction S rule: join_runes.induct)
  case 1
  show ?case by (simp add: strings_Join_def encodeRunes_def)
next
  case (2 s)
  show ?case by (simp add: strings_Join_def)
next
  case (3 s t r)
  have "strings_Join (map encodeRunes (s # t # r)) '';''
      = encodeRunes s @ '';'' @ strings_Join (map encodeRunes (t # r)) '';''"
    by (simp add: strings_Join_def)
  also have "\<dots> = encodeRunes s @ encodeRune (of_char CHR '';'') @ encodeRunes (join_runes (t # r))"
    using 3 encodeRune_semicolon by simp
  also have "\<dots> = encodeRunes (join_runes (s # t # r))"
    by (simp add: encodeRunes_def)
  finally show ?case .
qed

lemma filter_nonempty_encode:
  "filter (\<lambda>s. s \<noteq> []) (map encodeRunes S) = map encodeRunes (filter (\<lambda>s. s \<noteq> []) S)"
  by (induction S) (simp_all add: encodeRunes_Nil_iff)

lemma splitQuery_runes:
  "splitQueryBySemicolon q = map encodeRunes (split_r (runes q) False False [] [])"
  using split_loop_runes [of "runes q" False False "[]" "[]"]
  by (simp add: splitQueryBySemicolon_def encodeRunes_def)

lemma valid_semicolon: "valid_scalar (of_char CHR '';'')"
  by (simp add: valid_scalar_def)

lemma join_runes_valid:
  "\<forall>r \<in> set (concat S). valid_scalar r \<Longrightarrow> \<forall>r \<in> set (join_runes S). valid_scalar r"
  by (induction S rule: join_runes.induct) (auto simp: valid_scalar_def)

lemma split_rejoin:
  "splitQueryBySemicolon
      (strings_Join (filter (\<lambda>s. s \<noteq> []) (splitQueryBySemicolon q)) '';'')
     = filter (\<lambda>s. s \<noteq> []) (splitQueryBySemicolon q)"
proof -
  define S where "S = split_r (runes q) False False [] []"
  define S' where "S' = filter (\<lambda>s. s \<noteq> []) S"
  have seg: "splitQueryBySemicolon q = map encodeRunes S"
    unfolding S_def by (rule splitQuery_runes)
  have fl: "filter (\<lambda>s. s \<noteq> []) (splitQueryBySemicolon q) = map encodeRunes S'"
    unfolding seg S'_def by (rule filter_nonempty_encode)
  have "segments_ok S" unfolding S_def by (rule split_r_segments_ok) simp
  then have g: "segments_ok S'" unfolding S'_def by (rule segments_ok_filter)
  have ne: "\<forall>s \<in> set S'. s \<noteq> []" unfolding S'_def by simp
  have "set (concat S) \<subseteq> set (runes q)"
    unfolding S_def using split_r_subset [of "runes q" False False "[]" "[]"] by simp
  moreover have "set (concat S') \<subseteq> set (concat S)" unfolding S'_def by auto
  ultimately have "\<forall>r \<in> set (concat S'). valid_scalar r"
    using runes_valid by blast
  then have "\<forall>r \<in> set (join_runes S'). valid_scalar r" by (rule join_runes_valid)
  then have v: "list_all valid_scalar (join_runes S')" by (simp add: list_all_iff)
  have "runes (encodeRunes (join_runes S') @ []) = join_runes S' @ runes []"
    by (rule runes_encodeRunes [OF v])
  then have r: "runes (strings_Join (map encodeRunes S') '';'') = join_runes S'"
    by (simp add: strings_Join_runes runes_def)
  have "splitQueryBySemicolon (strings_Join (map encodeRunes S') '';'')
      = map encodeRunes (split_r (join_runes S') False False [] [])"
    unfolding splitQuery_runes r ..
  also have "\<dots> = map encodeRunes S'"
    using resplit [OF g ne] by simp
  finally show ?thesis unfolding fl .
qed


lemma join_runes_Cons:
  "join_runes (s # T) = (if T = [] then s else s @ [of_char CHR '';''] @ join_runes T)"
  by (cases T) simp_all

lemma split_r_exact:
  "join_runes (split_r rs q e cur []) = cur @ rs
   \<or> join_runes (split_r rs q e cur []) @ [of_char CHR '';''] = cur @ rs"
proof (induction rs arbitrary: q e cur)
  case Nil
  show ?case by simp
next
  case (Cons ch rest)
  show ?case
  proof (cases "quote_scan [ch] q e")
    case None
    then have sep: "\<not> e" "ch \<noteq> of_char (CHR 0x5C)"
        "\<not> (ch = of_char (CHR 0x22) \<or> ch = of_char (CHR 0x27))" "ch = of_char CHR '';''" "\<not> q"
      by (auto split: if_splits)
    define T where "T = split_r rest False False [] []"
    have "split_r (ch # rest) q e cur [] = split_r rest False False [] [cur]"
      using sep by simp
    also have "\<dots> = cur # T"
      unfolding T_def using split_r_acc [of rest False False "[]" "[cur]"] by simp
    finally have eq: "split_r (ch # rest) q e cur [] = cur # T" .
    have IH: "join_runes T = rest \<or> join_runes T @ [of_char CHR '';''] = rest"
      unfolding T_def using Cons [of False False "[]"] by simp
    show ?thesis
    proof (cases "T = []")
      case True
      have "rest = []"
      proof (rule ccontr)
        assume "rest \<noteq> []"
        with IH True have "rest = [of_char CHR '';'']" by auto
        then have "T = [[]]" unfolding T_def by simp
        with True show False by simp
      qed
      then show ?thesis unfolding eq using True sep by (simp add: join_runes_Cons)
    next
      case False
      then show ?thesis unfolding eq using IH sep by (auto simp add: join_runes_Cons)
    qed
  next
    case (Some st)
    obtain q' e' where st: "st = (q', e')" by (cases st)
    have "split_r ([ch] @ rest) q e cur [] = split_r rest q' e' (cur @ [ch]) []"
      using split_r_quote_scan [of "[ch]" q e q' e' rest cur "[]"] Some st by simp
    then show ?thesis using Cons [of q' e' "cur @ [ch]"] by simp
  qed
qed

lemma splitQuery_exact:
  "strings_Join (splitQueryBySemicolon q) '';'' = encodeRunes (runes q)
   \<or> strings_Join (splitQueryBySemicolon q) '';'' @ '';'' = encodeRunes (runes q)"
proof -
  define S where "S = split_r (runes q) False False [] []"
  have j: "strings_Join (splitQueryBySemicolon q) '';'' = encodeRunes (join_runes S)"
    unfolding splitQuery_runes S_def by (rule strings_Join_runes)
  have "join_runes S = runes q \<or> join_runes S @ [of_char CHR '';''] = runes q"
    unfolding S_def using split_r_exact [of "runes q" False False "[]"] by simp
  then show ?thesis
  proof
    assume "join_runes S = runes q"
    then show ?thesis using j by simp
  next
    assume a: "join_runes S @ [of_char CHR '';''] = runes q"
    have "encodeRunes (join_runes S) @ '';'' = encodeRunes (join_runes S @ [of_char CHR '';''])"
      using encodeRune_semicolon by (simp add: encodeRunes_def)
    then show ?thesis using j a by simp
  qed
qed

subsection \<open>Executing one statement\<close>

lemma wrap64_id: "0 \<le> x \<Longrightarrow> x < 2 ^ 63 \<Longrightarrow> wrap64 x = x"
  by (simp add: wrap64_def)

lemma scan_rows_length:
  "scan_rows columns scans acc = Inr results \<Longrightarrow> length results = length acc + length scans"
  by (induction columns scans acc rule: scan_rows.induct) auto

lemma prepareAndExecuteQuery_cursor:
  assumes "prepareAndExecuteQuery D query st = (Inr qe, st')"
  shows "\<exists>w w'. stmt_Query D query w = (Inr (qe_rows qe), w')"
  using assms
  unfolding prepareAndExecuteQuery_def run_query_def
  by (fastforce split: prod.splits sum.splits option.splits)

lemma executeSingleQuery_result:
  assumes "executeSingleQuery D query st = (Inr r, st')"
  shows "\<exists>d pd pl sd cur w w'.
           r = \<lparr> Results = Results r,
                 Benchmarks = Some (calculateBenchmarkMetrics d pd pl sd
                    (wrap64 (int (length (Results r)))) (wrap64 (int (length (Results r))))),
                 Duration = d \<rparr>
         \<and> stmt_Query D query w = (Inr cur, w') \<and> length (Results r) = length (Scans cur)"
proof -
  from assms obtain s1 t0 qe s2 where
      n: "now D st = (t0, s1)" and p: "prepareAndExecuteQuery D query s1 = (Inr qe, s2)"
    unfolding executeSingleQuery_def
    by (auto split: prod.splits sum.splits)
  from prepareAndExecuteQuery_cursor [OF p] obtain w w' where
      c: "stmt_Query D query w = (Inr (qe_rows qe), w')" by blast
  from assms n p obtain results d pd pl sd where
      r: "r = \<lparr> Results = results,
                 Benchmarks = Some (calculateBenchmarkMetrics d pd pl sd
                    (wrap64 (int (length results))) (wrap64 (int (length results)))),
                 Duration = d \<rparr>"
      and sc: "scan_rows (qe_columns qe) (Scans (qe_rows qe)) [] = Inr results"
    unfolding executeSingleQuery_def processRowsWithBenchmarking_def
    by (auto simp: Let_def split: prod.splits sum.splits option.splits)
  have l: "length results = length (Scans (qe_rows qe))"
    using scan_rows_length [OF sc] by simp
  show ?thesis using r c l by auto
qed


subsection \<open>Matching and validation\<close>

lemma m_items_needs:
  "m_items its prev ts = Some rest \<Longrightarrow> Cls p One \<in> set its \<Longrightarrow> \<exists>t \<in> set ts. p (fst t)"
proof (induction its prev ts arbitrary: rest rule: m_items.induct)
  case (1 prev ts)
  then show ?case by simp
next
  case (2 its prev ts)
  then show ?case by (auto split: if_splits)
next
  case (3 p' its prev)
  then show ?case by simp
next
  case (4 p' its prev t ts)
  then show ?case by (auto split: if_splits)
next
  case (5 p' its prev)
  then show ?case by auto
next
  case (6 p' its prev t ts)
  then show ?case by (auto split: if_splits option.splits)
next
  case (7 p' its prev)
  then show ?case by auto
next
  case (8 p' its prev t ts)
  then show ?case by (auto split: if_splits option.splits)
qed

lemma search_needs:
  "search its prev ts = Some x \<Longrightarrow> Cls p One \<in> set its \<Longrightarrow> \<exists>t \<in> set ts. p (fst t)"
proof (induction its prev ts rule: search.induct)
  case (1 its prev)
  then show ?case using m_items_needs [of its prev "[]"] by (auto split: option.splits)
next
  case (2 its prev t ts)
  show ?case
  proof (cases "m_items its prev (t # ts)")
    case None
    then show ?thesis using 2 by auto
  next
    case (Some rest)
    then show ?thesis using m_items_needs [OF Some "2.prems"(2)] by simp
  qed
qed


lemma ilit_not_blank:
  "c \<in> set ''UO-/EX'' \<Longrightarrow> ilit c r \<Longrightarrow> \<not> blank r"
  by (auto simp: ilit_def upper_of_def blank_def IsSpace_def Let_def)

lemma pattern_needs:
  "pat \<in> set suspiciousPatterns \<Longrightarrow> \<exists>c \<in> set ''UO-/EX''. Cls (ilit c) One \<in> set (snd pat)"
  by (auto simp: suspiciousPatterns_def ilits_def)

lemma blank_no_match:
  assumes "\<forall>r \<in> set (runes query). blank r" and "pat \<in> set suspiciousPatterns"
  shows "\<not> MatchString pat query"
proof
  assume "MatchString pat query"
  then obtain x where s: "search (snd pat) None (tokens query) = Some x"
    by (auto simp: MatchString_def)
  from pattern_needs [OF assms(2)] obtain c where
      c: "c \<in> set ''UO-/EX''" "Cls (ilit c) One \<in> set (snd pat)" by blast
  from search_needs [OF s c(2)] obtain t where t: "t \<in> set (tokens query)" "ilit c (fst t)"
    by blast
  then have "fst t \<in> set (runes query)" by (auto simp: runes_def)
  with assms(1) have "blank (fst t)" by blast
  with ilit_not_blank [OF c(1) t(2)] show False by simp
qed

lemma first_match_None:
  "\<forall>pat \<in> set pats. \<not> MatchString pat query \<Longrightarrow> first_match pats query = None"
  by (induction pats) auto

lemma first_match_None_iff:
  "first_match pats query = None \<longleftrightarrow> (\<forall>pat \<in> set pats. \<not> MatchString pat query)"
  by (induction pats) auto

lemma blank_validates:
  "\<forall>r \<in> set (runes query). blank r \<Longrightarrow> validateQuery query = None"
  unfolding validateQuery_def using blank_no_match by (intro first_match_None) blast

lemma split_r_space:
  "\<forall>r \<in> set rs. blank r \<Longrightarrow> \<forall>r \<in> set cur. IsSpace r
   \<Longrightarrow> \<forall>s \<in> set acc. \<forall>r \<in> set s. IsSpace r
   \<Longrightarrow> \<forall>s \<in> set (split_r rs False False cur acc). \<forall>r \<in> set s. IsSpace r"
proof (induction rs arbitrary: cur acc)
  case Nil
  then show ?case by auto
next
  case (Cons ch rest)
  then have b: "blank ch" and rest: "\<forall>r \<in> set rest. blank r" by simp_all
  show ?case
  proof (cases "ch = of_char CHR '';''")
    case True
    then have "split_r (ch # rest) False False cur acc = split_r rest False False [] (acc @ [cur])"
      by simp
    moreover have "\<forall>s \<in> set (split_r rest False False [] (acc @ [cur])). \<forall>r \<in> set s. IsSpace r"
      using Cons.prems(2,3) by (intro Cons.IH [OF rest]) auto
    ultimately show ?thesis by simp
  next
    case False
    with b have sp: "IsSpace ch" by (simp add: blank_def)
    then have "ch \<noteq> of_char (CHR 0x5C)" "ch \<noteq> of_char (CHR 0x22)" "ch \<noteq> of_char (CHR 0x27)"
      by (auto simp: IsSpace_def)
    with False have
      "split_r (ch # rest) False False cur acc = split_r rest False False (cur @ [ch]) acc"
      by simp
    moreover have "\<forall>s \<in> set (split_r rest False False (cur @ [ch]) acc). \<forall>r \<in> set s. IsSpace r"
      using Cons.prems(2,3) sp by (intro Cons.IH [OF rest]) auto
    ultimately show ?thesis by simp
  qed
qed

lemma IsSpace_valid: "IsSpace r \<Longrightarrow> valid_scalar r"
  by (auto simp: IsSpace_def valid_scalar_def)

lemma TrimSpace_spaces:
  assumes "\<forall>r \<in> set ws. IsSpace r"
  shows "TrimSpace (encodeRunes ws) = []"
proof -
  have v: "list_all valid_scalar ws" using assms IsSpace_valid by (auto simp: list_all_iff)
  have "tokens (encodeRunes ws @ []) = map (\<lambda>r. (r, encodeRune r)) ws @ tokens []"
    by (rule tokens_encodeRunes [OF v])
  then have t: "tokens (encodeRunes ws) = map (\<lambda>r. (r, encodeRune r)) ws" by simp
  have d: "dropWhile (\<lambda>t. IsSpace (fst t)) (map (\<lambda>r. (r, encodeRune r)) ws) = []"
    using assms by (simp add: dropWhile_eq_Nil_conv)
  show ?thesis unfolding TrimSpace_def t d by simp
qed

lemma execute_loop_empty:
  "\<forall>q \<in> set queries. TrimSpace q = [] \<Longrightarrow> execute_loop D i queries lastResult st = (Inr lastResult, st)"
  by (induction queries arbitrary: i) simp_all

lemma blank_segments:
  assumes "\<forall>r \<in> set (runes query). blank r"
  shows "\<forall>q \<in> set (splitQueryBySemicolon query). TrimSpace q = []"
proof -
  have "\<forall>s \<in> set (split_r (runes query) False False [] []). \<forall>r \<in> set s. IsSpace r"
    using assms by (intro split_r_space) simp_all
  then show ?thesis
    unfolding splitQuery_runes using TrimSpace_spaces by auto
qed

lemma now_calls: "now D st = (t, st') \<Longrightarrow> calls st' = calls st"
  by (auto simp: now_def split: prod.splits)


lemma has_prefix_append: "has_prefix (b @ c) b"
  by (induction b) simp_all

lemma contains_prefix: "has_prefix s sub \<Longrightarrow> strings_Contains s sub"
  by (cases s; cases sub) simp_all

lemma strings_Contains_mid: "strings_Contains (a @ b @ c) b"
proof (induction a)
  case Nil
  show ?case using contains_prefix [OF has_prefix_append [of b c]] by simp
next
  case (Cons x a)
  then show ?case by simp
qed

lemma first_match_Some:
  "\<exists>pat \<in> set pats. MatchString pat query
   \<Longrightarrow> \<exists>p \<in> set pats. MatchString p query
         \<and> first_match pats query = Some (New (''potentially malicious SQL pattern detected: '' @ fst p))"
  by (induction pats) auto


subsection \<open>The loop over the statements\<close>

lemma statements_from_Nil: "statements_from i [] = []"
  by (simp add: statements_from_def)

lemma statements_from_Cons:
  "statements_from i (q # qs) =
     (if TrimSpace q = [] then statements_from (Suc i) qs
      else (Suc i, TrimSpace q) # statements_from (Suc i) qs)"
  by (simp add: statements_from_def)

lemma statements_eq: "statements query = statements_from 0 (splitQueryBySemicolon query)"
  by (simp add: statements_def statements_from_def)

lemma execute_loop_run:
  "execute_loop D i qs lastResult st =
     (case run_statements D (statements_from i qs) st of
        (Inl (j, err), st') \<Rightarrow>
          (Inl (Wrap (''failed to execute query '' @ decimal j @ '': '' @ Error err) err), st')
      | (Inr rs, st') \<Rightarrow> (Inr (if rs = [] then lastResult else Some (last rs)), st'))"
proof (induction qs arbitrary: i lastResult st)
  case Nil
  show ?case by (simp add: statements_from_Nil)
next
  case (Cons q qs)
  show ?case
  proof (cases "TrimSpace q = []")
    case True
    then show ?thesis using Cons [of "Suc i" lastResult st]
      by (simp add: statements_from_Cons)
  next
    case False
    obtain r st' where e: "executeSingleQuery D (TrimSpace q) st = (r, st')"
      by (cases "executeSingleQuery D (TrimSpace q) st")
    show ?thesis
    proof (cases r)
      case (Inl err)
      then show ?thesis using False e by (simp add: statements_from_Cons Let_def)
    next
      case (Inr res)
      obtain x st'' where rs: "run_statements D (statements_from (Suc i) qs) st' = (x, st'')"
        by (cases "run_statements D (statements_from (Suc i) qs) st'")
      show ?thesis
        using False e Inr rs Cons [of "Suc i" "Some res" st']
        by (cases x) (auto simp add: statements_from_Cons Let_def split: prod.splits)
    qed
  qed
qed


subsection \<open>The code and the engine\<close>

lemma now_world:
  assumes "now D st = (t, st')"
  shows "world st' = ticks D 1 (world st)" and "calls st' = calls st"
    and "t = fst (time_Now D (world st))"
  using assms by (auto simp: now_def split: prod.splits)

lemma ticks_Suc_right: "ticks D (Suc n) w = snd (time_Now D (ticks D n w))"
  by (induction n arbitrary: w) simp_all

lemma ticks_add: "ticks D n (ticks D m w) = ticks D (m + n) w"
  by (induction m arbitrary: w) simp_all

lemma errors_Is_refl: "errors_Is e e"
  by (cases e) simp_all

lemma errors_Is_Errorf_w: "errors_Is (Errorf_w p e) e"
  by (simp add: Errorf_w_def errors_Is_refl)

lemma scan_rows_values:
  "scan_rows columns scans acc =
     (case cursor_values scans of
        Inl e \<Rightarrow> Inl (Errorf_w ''failed to scan row: '' e)
      | Inr vs \<Rightarrow> Inr (acc @ map (createRowMap columns) vs))"
proof (induction columns scans acc rule: scan_rows.induct)
  case (1 columns results)
  then show ?case by simp
next
  case (2 columns err rest results)
  then show ?case by simp
next
  case (3 columns "values" rest results)
  then show ?case by (simp split: sum.splits)
qed


lemma ticks_1: "ticks D 1 w = snd (time_Now D w)"
  by simp

lemma ticks_2: "ticks D 2 w = snd (time_Now D (snd (time_Now D w)))"
  by (simp add: numeral_2_eq_2)

lemma prepareAndExecuteQuery_engine:
  assumes "prepareAndExecuteQuery D q st = (r, st')"
  shows "case db_Prepare D q (ticks D 1 (world st)) of
      (Some e, w1) \<Rightarrow> r = Inl (Errorf_w ''failed to prepare query: '' e)
          \<and> calls st' = calls st @ [Prepare q]
    | (None, w1) \<Rightarrow>
       (case stmt_Query D q (ticks D 2 w1) of
          (Inl e, w2) \<Rightarrow> r = Inl (Errorf_w ''failed to execute query: '' e)
             \<and> calls st' = calls st @ [Prepare q, Query q, CloseStmt]
        | (Inr c, w2) \<Rightarrow>
           (case Columns c of
              Inl e \<Rightarrow> r = Inl (Errorf_w ''failed to get column names: '' e)
                 \<and> calls st' = calls st @ [Prepare q, Query q, CloseRows, CloseStmt]
            | Inr cols \<Rightarrow> (\<exists>qe. r = Inr qe \<and> qe_rows qe = c \<and> qe_columns qe = cols)
                 \<and> world st' = ticks D 1 w2
                 \<and> calls st' = calls st @ [Prepare q, Query q]))"
  using assms
  unfolding prepareAndExecuteQuery_def now_def prepare_def run_query_def note_call_def
    close_stmt_rows_def ticks_1 ticks_2
  by (auto split: prod.splits option.splits sum.splits)

lemma processRows_engine:
  assumes "processRowsWithBenchmarking D qe st = (r, st')"
  shows "calls st' = calls st
    \<and> (case cursor_values (Scans (qe_rows qe)) of
         Inl e \<Rightarrow> r = Inl (Errorf_w ''failed to scan row: '' e)
       | Inr vs \<Rightarrow>
          (case RowsErr (qe_rows qe) of
             Some e \<Rightarrow> r = Inl (Errorf_w ''error during row iteration: '' e)
           | None \<Rightarrow> (\<exists>pr. r = Inr pr \<and> rp_results pr = map (createRowMap (qe_columns qe)) vs)
               \<and> world st' = ticks D 2 (world st)))"
  using assms
  unfolding processRowsWithBenchmarking_def now_def scan_rows_values ticks_2
  by (auto split: prod.splits option.splits sum.splits)


lemma executeSingleQuery_engine:
  assumes "executeSingleQuery D q st = (r, st')"
  shows "case engine_answer D q (world st) of
      Inr (rows, w) \<Rightarrow> (\<exists>res. r = Inr res \<and> Results res = rows) \<and> world st' = w
          \<and> calls st' = calls st @ statement_calls q
    | Inl e \<Rightarrow> (\<exists>c \<in> set error_contexts. r = Inl (Errorf_w c e))
          \<and> (\<exists>cs \<in> set (failed_calls q). calls st' = calls st @ cs)"
proof -
  obtain t0 s1 where n: "now D st = (t0, s1)" by (cases "now D st")
  obtain pr s2 where p: "prepareAndExecuteQuery D q s1 = (pr, s2)"
    by (cases "prepareAndExecuteQuery D q s1")
  have w1: "ticks D 1 (world s1) = ticks D 2 (world st)" and c1: "calls s1 = calls st"
    using now_world [OF n] by (simp_all add: eval_nat_numeral)
  note pe = prepareAndExecuteQuery_engine [OF p, unfolded w1 c1]
  obtain pe_err wp where dp: "db_Prepare D q (ticks D 2 (world st)) = (pe_err, wp)"
    by (cases "db_Prepare D q (ticks D 2 (world st))")
  show ?thesis
  proof (cases pe_err)
    case (Some e)
    then have "pr = Inl (Errorf_w ''failed to prepare query: '' e)"
        "calls s2 = calls st @ [Prepare q]"
      using pe dp by simp_all
    then have "r = Inl (Errorf_w ''failed to prepare query: '' e)" "calls st' = calls st @ [Prepare q]"
      using assms n p by (simp_all add: executeSingleQuery_def)
    then show ?thesis
      using dp Some by (simp add: engine_answer_def error_contexts_def failed_calls_def)
  next
    case None
    obtain qr wq where sq: "stmt_Query D q (ticks D 2 wp) = (qr, wq)"
      by (cases "stmt_Query D q (ticks D 2 wp)")
    show ?thesis
    proof (cases qr)
      case (Inl e)
      then have "pr = Inl (Errorf_w ''failed to execute query: '' e)"
          "calls s2 = calls st @ [Prepare q, Query q, CloseStmt]"
        using pe dp None sq by simp_all
      then have "r = Inl (Errorf_w ''failed to execute query: '' e)"
          "calls st' = calls st @ [Prepare q, Query q, CloseStmt]"
        using assms n p by (simp_all add: executeSingleQuery_def)
      then show ?thesis
        using dp None sq Inl by (simp add: engine_answer_def error_contexts_def failed_calls_def)
    next
      case (Inr c)
      show ?thesis
      proof (cases "Columns c")
        case (Inl e)
        then have "pr = Inl (Errorf_w ''failed to get column names: '' e)"
            "calls s2 = calls st @ [Prepare q, Query q, CloseRows, CloseStmt]"
          using pe dp None sq Inr by simp_all
        then have "r = Inl (Errorf_w ''failed to get column names: '' e)"
            "calls st' = calls st @ [Prepare q, Query q, CloseRows, CloseStmt]"
          using assms n p by (simp_all add: executeSingleQuery_def)
        then show ?thesis
          using dp None sq Inr Inl
          by (simp add: engine_answer_def cursor_rows_def error_contexts_def failed_calls_def)
      next
        case cols: (Inr cols)
        from pe dp None sq Inr cols obtain qe where
            qe: "pr = Inr qe" "qe_rows qe = c" "qe_columns qe = cols"
            and w2: "world s2 = ticks D 1 wq" and c2: "calls s2 = calls st @ [Prepare q, Query q]"
          by auto
        obtain t1 s3 where n3: "now D s2 = (t1, s3)" by (cases "now D s2")
        obtain rr s4 where pp: "processRowsWithBenchmarking D qe s3 = (rr, s4)"
          by (cases "processRowsWithBenchmarking D qe s3")
        have w3: "world s3 = ticks D 2 wq" and c3: "calls s3 = calls st @ [Prepare q, Query q]"
          using now_world [OF n3] w2 c2 by (simp_all add: eval_nat_numeral)
        note pr = processRows_engine [OF pp, unfolded qe c3 w3]
        have c4: "calls s4 = calls st @ [Prepare q, Query q]" using pr by simp
        show ?thesis
        proof (cases "cursor_values (Scans c)")
          case (Inl e)
          then have "rr = Inl (Errorf_w ''failed to scan row: '' e)" using pr by simp
          then have "r = Inl (Errorf_w ''failed to scan row: '' e)" "st' = close_stmt_rows s4"
            using assms n p qe n3 pp by (simp_all add: executeSingleQuery_def)
          then show ?thesis
            using dp None sq Inr cols Inl c4
            by (simp add: engine_answer_def cursor_rows_def error_contexts_def failed_calls_def
                  close_stmt_rows_def note_call_def)
        next
          case vs: (Inr vs)
          show ?thesis
          proof (cases "RowsErr c")
            case (Some e)
            then have "rr = Inl (Errorf_w ''error during row iteration: '' e)"
              using pr vs by simp
            then have "r = Inl (Errorf_w ''error during row iteration: '' e)"
                "st' = close_stmt_rows s4"
              using assms n p qe n3 pp by (simp_all add: executeSingleQuery_def)
            then show ?thesis
              using dp \<open>pe_err = None\<close> sq Inr cols vs Some c4
              by (simp add: engine_answer_def cursor_rows_def error_contexts_def failed_calls_def
                    close_stmt_rows_def note_call_def)
          next
            case rn: None
            from pr vs rn obtain prr where
                prr: "rr = Inr prr" "rp_results prr = map (createRowMap cols) vs"
                and w4: "world s4 = ticks D 4 wq"
              by (auto simp: eval_nat_numeral)
            obtain t2 s5 where n5: "now D s4 = (t2, s5)" by (cases "now D s4")
            have w5: "world s5 = ticks D 5 wq" and c5: "calls s5 = calls st @ [Prepare q, Query q]"
              using now_world [OF n5] w4 c4 by (simp_all add: eval_nat_numeral)
            have "\<exists>res. r = Inr res \<and> Results res = map (createRowMap cols) vs"
                and "st' = close_stmt_rows s5"
              using assms n p qe n3 pp prr n5 by (auto simp add: executeSingleQuery_def Let_def)
            then show ?thesis
              using dp \<open>pe_err = None\<close> sq Inr cols vs rn w5 c5
              by (auto simp add: engine_answer_def cursor_rows_def statement_calls_def
                    close_stmt_rows_def note_call_def)
          qed
        qed
      qed
    qed
  qed
qed


lemma run_statements_ok:
  "engine_run D (map snd stmts) (world st) = Inr (rows, w)
   \<Longrightarrow> \<exists>rs st'. run_statements D stmts st = (Inr rs, st') \<and> map Results rs = rows
          \<and> world st' = w
          \<and> calls st' = calls st @ concat (map statement_calls (map snd stmts))"
proof (induction stmts arbitrary: st rows)
  case Nil
  then show ?case by simp
next
  case (Cons a stmts)
  obtain j q where a: "a = (j, q)" by (cases a)
  from Cons.prems a obtain r1 w1 rest where
      ea: "engine_answer D q (world st) = Inr (r1, w1)"
      and er: "engine_run D (map snd stmts) w1 = Inr (rest, w)" and rows: "rows = r1 # rest"
    by (auto split: sum.splits prod.splits)
  obtain r s1 where e: "executeSingleQuery D q st = (r, s1)"
    by (cases "executeSingleQuery D q st")
  from executeSingleQuery_engine [OF e] ea obtain res where
      res: "r = Inr res" "Results res = r1" and w: "world s1 = w1"
      and c: "calls s1 = calls st @ statement_calls q"
    by auto
  from Cons.IH [of s1 rest] er w obtain rs st' where
      ih: "run_statements D stmts s1 = (Inr rs, st')" "map Results rs = rest" "world st' = w"
        "calls st' = calls s1 @ concat (map statement_calls (map snd stmts))"
    by auto
  have "run_statements D (a # stmts) st = (Inr (res # rs), st')"
    using a e res ih by simp
  moreover have "map Results (res # rs) = rows" using res ih rows by simp
  moreover have "calls st' = calls st @ concat (map statement_calls (map snd (a # stmts)))"
    using ih c a by simp
  ultimately show ?case using ih(3) by blast
qed

lemma run_statements_fail:
  assumes "engine_run D (map snd pre) (world st) = Inr (rows, w)"
    and "engine_answer D q w = Inl e"
  shows "\<exists>c cs st'. c \<in> set error_contexts \<and> cs \<in> set (failed_calls q)
          \<and> run_statements D (pre @ (i, q) # post) st = (Inl (i, Errorf_w c e), st')
          \<and> calls st' = calls st @ concat (map statement_calls (map snd pre)) @ cs"
  using assms
proof (induction pre arbitrary: st rows)
  case Nil
  obtain r s1 where x: "executeSingleQuery D q st = (r, s1)"
    by (cases "executeSingleQuery D q st")
  from Nil have "engine_answer D q (world st) = Inl e" by simp
  with executeSingleQuery_engine [OF x] obtain c cs where
      "c \<in> set error_contexts" "r = Inl (Errorf_w c e)"
      "cs \<in> set (failed_calls q)" "calls s1 = calls st @ cs"
    by auto
  moreover from this x have "run_statements D ([] @ (i, q) # post) st = (Inl (i, Errorf_w c e), s1)"
    by simp
  ultimately show ?case by fastforce
next
  case (Cons a pre)
  obtain j p where a: "a = (j, p)" by (cases a)
  from Cons.prems(1) a obtain r1 w1 rest where
      ea: "engine_answer D p (world st) = Inr (r1, w1)"
      and er: "engine_run D (map snd pre) w1 = Inr (rest, w)"
    by (auto split: sum.splits prod.splits)
  obtain r s1 where x: "executeSingleQuery D p st = (r, s1)"
    by (cases "executeSingleQuery D p st")
  from executeSingleQuery_engine [OF x] ea obtain res where
      res: "r = Inr res" and w: "world s1 = w1"
      and c: "calls s1 = calls st @ statement_calls p"
    by auto
  from Cons.IH [of s1 rest] er w Cons.prems(2) obtain c' cs st' where
      ih: "c' \<in> set error_contexts" "cs \<in> set (failed_calls q)"
        "run_statements D (pre @ (i, q) # post) s1 = (Inl (i, Errorf_w c' e), st')"
        "calls st' = calls s1 @ concat (map statement_calls (map snd pre)) @ cs"
    by blast
  have "run_statements D ((a # pre) @ (i, q) # post) st = (Inl (i, Errorf_w c' e), st')"
    using a x res ih(3) by simp
  moreover have "calls st' = calls st @ concat (map statement_calls (map snd (a # pre))) @ cs"
    using ih(4) c a by simp
  ultimately show ?case using ih(1,2) by blast
qed

lemma ExecuteQuery_run_statements:
  assumes "db h \<noteq> None" and "validateQuery query = None"
  shows "ExecuteQuery D h query st =
          (case now D st of (startTime, s1) \<Rightarrow>
           case run_statements D (statements query) s1 of
             (Inl (i, err), s2) \<Rightarrow>
               (Inl (Wrap (''failed to execute query '' @ decimal i @ '': '' @ Error err) err), s2)
           | (Inr rs, s2) \<Rightarrow>
               if rs = [] then (Inl (New ''no valid queries to execute''), s2)
               else case now D s2 of (endTime, s3) \<Rightarrow>
                 (Inr (set_total (endTime - startTime) (last rs)), s3))"
proof -
  obtain t0 s1 where n: "now D st = (t0, s1)" by (cases "now D st")
  obtain x s2 where r: "run_statements D (statements query) s1 = (x, s2)"
    by (cases "run_statements D (statements query) s1")
  have l: "execute_loop D 0 (splitQueryBySemicolon query) None s1 =
     (case x of
        Inl (j, err) \<Rightarrow>
          (Inl (Wrap (''failed to execute query '' @ decimal j @ '': '' @ Error err) err), s2)
      | Inr rs \<Rightarrow> (Inr (if rs = [] then None else Some (last rs)), s2))"
    unfolding execute_loop_run using r by (simp add: statements_eq split: sum.splits)
  show ?thesis
    using assms n r l
    by (cases x) (auto simp add: ExecuteQuery_def split: prod.splits)
qed

section \<open>Evaluating on concrete inputs\<close>

lemmas u8_eval =
  runes_def lead_info_def cont_byte_def RuneError_def encodeRunes_def encodeRune_def
  char_of_eq_iff

lemmas engine_eval =
  executeSingleQuery_def prepareAndExecuteQuery_def processRowsWithBenchmarking_def
  now_def prepare_def run_query_def note_call_def close_stmt_rows_def
  sim_driver_def sim_start_def sim_cursor_def sim_handle_def Let_def

lemmas regexp_eval =
  MatchString_def suspiciousPatterns_def ilits_def lits_def plus_def ilit_def lit_def upper_of_def
  cls_d_def cls_s_def cls_w_def cls_w_fold_def cls_dot_def IsWordChar_def word_before_def
  word_after_def


lemma statements_example: "statements ''SELECT 1;; SELECT x FROM nosuch; SELECT 2''
   = [(1, ''SELECT 1''), (3, ''SELECT x FROM nosuch''), (4, ''SELECT 2'')]"
  by (simp add: statements_def splitQueryBySemicolon_def TrimSpace_def IsSpace_def u8_eval enumerate_eq_zip upt_rec)


lemmas echo_eval =
  engine_answer_def cursor_rows_def echo_driver_def sim_driver_def sim_start_def sim_handle_def
  createRowMap_def row_value_def statement_calls_def failed_calls_def error_contexts_def
  eval_nat_numeral

lemma statements_example2: "statements ''SELECT 1;; SELECT 2''
   = [(1, ''SELECT 1''), (3, ''SELECT 2'')]"
  by (simp add: statements_def splitQueryBySemicolon_def TrimSpace_def IsSpace_def u8_eval enumerate_eq_zip upt_rec)

lemmas close_eval =
  Close_def close_db_def remove_file_def IsNotExist_def underlyingError_def Errorf_w_def
  sim_driver_def sim_start_def sim_handle_def Let_def


section \<open>Claims\<close>

text \<open>
  C2. For every string \<open>t\<close>, every rune of \<open>sanitizeTableName t\<close> lies in
  \<^verbatim>\<open>[A-Za-z0-9_]\<close>; a rune of the input that is in the class stays where it is and every
  other rune becomes \<^verbatim>\<open>_\<close>, so the output has as many runes as the input.
\<close>

theorem sanitizeTableName_class:
  "runes (sanitizeTableName t) = map (\<lambda>r. if allowedRune r then r else of_char CHR ''_'') (runes t)
   \<and> list_all allowedRune (runes (sanitizeTableName t))
   \<and> length (runes (sanitizeTableName t)) = length (runes t)"
proof -
  have asc: "\<forall>r \<in> set (map sanitizeRune (runes t)). r < 0x80"
    using allowedRune_ascii allowedRune_sanitizeRune by auto
  have eq: "runes (sanitizeTableName t) = map sanitizeRune (runes t)"
    unfolding sanitizeTableName_def strings_Map_def
    by (rule runes_encode_ascii [OF asc])
  have "list_all allowedRune (map sanitizeRune (runes t))"
    by (simp add: list_all_iff allowedRune_sanitizeRune)
  with eq show ?thesis
    by (simp add: sanitizeRune_def [abs_def])
qed

theorem sanitizeTableName_class_witness:
  "sanitizeTableName [CHR ''t'', CHR 0xC3, CHR 0xA9, CHR ''-'', CHR ''1'', CHR 0xFF] = ''t__1_''
   \<and> list_all allowedRune
         (runes (sanitizeTableName [CHR ''t'', CHR 0xC3, CHR 0xA9, CHR ''-'', CHR ''1'', CHR 0xFF]))
   \<and> length (runes (sanitizeTableName [CHR ''t'', CHR 0xC3, CHR 0xA9, CHR ''-'', CHR ''1'', CHR 0xFF]))
       = length (runes [CHR ''t'', CHR 0xC3, CHR 0xA9, CHR ''-'', CHR ''1'', CHR 0xFF])"
proof -
  have e: "sanitizeTableName [CHR ''t'', CHR 0xC3, CHR 0xA9, CHR ''-'', CHR ''1'', CHR 0xFF] = ''t__1_''"
    by (simp add: sanitizeTableName_def strings_Map_def runes_def encodeRunes_def
        encodeRune_def sanitizeRune_def allowedRune_def lead_info_def cont_byte_def
        RuneError_def char_of_eq_iff)
  note c = sanitizeTableName_class
      [of "[CHR ''t'', CHR 0xC3, CHR 0xA9, CHR ''-'', CHR ''1'', CHR 0xFF]"]
  from c have "list_all allowedRune
      (runes (sanitizeTableName [CHR ''t'', CHR 0xC3, CHR 0xA9, CHR ''-'', CHR ''1'', CHR 0xFF]))"
    by (rule conjunct1 [OF conjunct2])
  moreover from c have
    "length (runes (sanitizeTableName [CHR ''t'', CHR 0xC3, CHR 0xA9, CHR ''-'', CHR ''1'', CHR 0xFF]))
       = length (runes [CHR ''t'', CHR 0xC3, CHR 0xA9, CHR ''-'', CHR ''1'', CHR 0xFF])"
    by (rule conjunct2 [OF conjunct2])
  ultimately show ?thesis
    using e by (intro conjI)
qed

text \<open>
  C4. For every query string \<open>q\<close>, re-joining the segments of
  \<open>splitQueryBySemicolon q\<close> with \<^verbatim>\<open>;\<close> between the non-empty segments gives a string
  equivalent to \<open>q\<close> under the quoting rules of the state machine: splitting it again
  gives back exactly the non-empty segments of \<open>q\<close>, so both strings hold the same
  statements in the same order.  The segments themselves keep every rune of \<open>q\<close> but
  the separators: joined with \<^verbatim>\<open>;\<close> they are \<open>q\<close> as the loop reads it (every ill-formed
  byte read as U+FFFD), up to one separator at the end.
\<close>

theorem split_rejoin_equivalent:
  "splitQueryBySemicolon
      (strings_Join (filter (\<lambda>s. s \<noteq> []) (splitQueryBySemicolon q)) '';'')
     = filter (\<lambda>s. s \<noteq> []) (splitQueryBySemicolon q)
   \<and> (strings_Join (splitQueryBySemicolon q) '';'' = encodeRunes (runes q)
      \<or> strings_Join (splitQueryBySemicolon q) '';'' @ '';'' = encodeRunes (runes q))"
  using split_rejoin [of q] splitQuery_exact [of q] by (rule conjI)

theorem split_rejoin_equivalent_witness:
  "splitQueryBySemicolon (''x '' @ [CHR 0x27] @ '';'' @ [CHR 0x27] @ '' ;; y;'')
     = [''x '' @ [CHR 0x27] @ '';'' @ [CHR 0x27] @ '' '', [], '' y'']
   \<and> splitQueryBySemicolon (''x '' @ [CHR 0x27] @ '';'' @ [CHR 0x27] @ '' ; y'')
     = [''x '' @ [CHR 0x27] @ '';'' @ [CHR 0x27] @ '' '', '' y'']"
proof -
  have s: "splitQueryBySemicolon (''x '' @ [CHR 0x27] @ '';'' @ [CHR 0x27] @ '' ;; y;'')
      = [''x '' @ [CHR 0x27] @ '';'' @ [CHR 0x27] @ '' '', [], '' y'']"
    by (simp add: splitQueryBySemicolon_def u8_eval)
  have "splitQueryBySemicolon (strings_Join (filter (\<lambda>s. s \<noteq> [])
          (splitQueryBySemicolon (''x '' @ [CHR 0x27] @ '';'' @ [CHR 0x27] @ '' ;; y;''))) '';'')
      = filter (\<lambda>s. s \<noteq> [])
          (splitQueryBySemicolon (''x '' @ [CHR 0x27] @ '';'' @ [CHR 0x27] @ '' ;; y;''))"
    using split_rejoin_equivalent
      [of "''x '' @ [CHR 0x27] @ '';'' @ [CHR 0x27] @ '' ;; y;''"]
    by (rule conjunct1)
  then have "splitQueryBySemicolon (''x '' @ [CHR 0x27] @ '';'' @ [CHR 0x27] @ '' ; y'')
      = [''x '' @ [CHR 0x27] @ '';'' @ [CHR 0x27] @ '' '', '' y'']"
    unfolding s by (simp add: strings_Join_def)
  with s show ?thesis by (rule conjI)
qed

text \<open>
  C10. For every single statement that is executed successfully and returns \<open>n\<close> rows
  (the rows its cursor yields), the benchmark fields that are not timings are fixed
  functions of \<open>n\<close>: thread count 4, operator count 3, scan count 1, cache hits 10,
  misses 2, hit ratio 0.83, bytes written 0, and rows processed \<open>2 n\<close>, peak memory
  \<open>1024 n\<close>, bytes read \<open>256 n\<close>.  The three products are computed in 64-bit integers;
  they are exact for every \<open>n\<close> below \<open>2\<^sup>5\<^sup>3\<close>, which a slice held in memory cannot
  reach.
\<close>

theorem benchmark_fields_fixed:
  assumes "executeSingleQuery D query st = (Inr r, st')"
  shows "\<exists>b cur w w'. Benchmarks r = Some b
     \<and> stmt_Query D query w = (Inr cur, w') \<and> length (Results r) = length (Scans cur)
     \<and> ThreadCount (resources b) = 4 \<and> OperatorCount (queryStats b) = 3
     \<and> ScanCount (queryStats b) = 1 \<and> HitCount (cache b) = 10 \<and> MissCount (cache b) = 2
     \<and> HitRatio (cache b) = 0.83 \<and> IoWriteBytes (resources b) = 0
     \<and> (length (Results r) < 2 ^ 53 \<longrightarrow>
            RowsProcessed (queryStats b) = 2 * int (length (Results r))
          \<and> PeakMemoryBytes (resources b) = 1024 * int (length (Results r))
          \<and> IoReadBytes (resources b) = 256 * int (length (Results r)))"
proof -
  from executeSingleQuery_result [OF assms] obtain d pd pl sd cur w w' where
      r: "r = \<lparr> Results = Results r,
                 Benchmarks = Some (calculateBenchmarkMetrics d pd pl sd
                    (wrap64 (int (length (Results r)))) (wrap64 (int (length (Results r))))),
                 Duration = d \<rparr>"
      and c: "stmt_Query D query w = (Inr cur, w')" "length (Results r) = length (Scans cur)"
    by blast
  define n where "n = int (length (Results r))"
  define b where "b = calculateBenchmarkMetrics d pd pl sd (wrap64 n) (wrap64 n)"
  have B: "Benchmarks r = Some b"
    by (subst r) (simp add: b_def n_def)
  have fixed: "ThreadCount (resources b) = 4" "OperatorCount (queryStats b) = 3"
      "ScanCount (queryStats b) = 1" "HitCount (cache b) = 10" "MissCount (cache b) = 2"
      "HitRatio (cache b) = 0.83" "IoWriteBytes (resources b) = 0"
    by (simp_all add: b_def calculateBenchmarkMetrics_def Let_def)
  have scaled: "RowsProcessed (queryStats b) = 2 * n \<and> PeakMemoryBytes (resources b) = 1024 * n
      \<and> IoReadBytes (resources b) = 256 * n" if "length (Results r) < 2 ^ 53"
  proof -
    have n0: "0 \<le> n" and n1: "n < 2 ^ 53" using that by (simp_all add: n_def)
    have w: "wrap64 n = n" using n0 n1 by (intro wrap64_id) simp_all
    have "wrap64 (n * 2) = n * 2" "wrap64 (n * 1024) = n * 1024" "wrap64 (n * 256) = n * 256"
      using n0 n1 by (intro wrap64_id; simp)+
    then show ?thesis
      by (simp add: b_def calculateBenchmarkMetrics_def Let_def w)
  qed
  show ?thesis
    using B c fixed scaled unfolding n_def by blast
qed

theorem benchmark_fields_fixed_witness:
  "\<exists>r st'. executeSingleQuery sim_driver ''SELECT 1'' sim_start = (Inr r, st')
     \<and> length (Results r) = 1
     \<and> (\<exists>b. Benchmarks r = Some b \<and> ThreadCount (resources b) = 4
            \<and> RowsProcessed (queryStats b) = 2 \<and> PeakMemoryBytes (resources b) = 1024
            \<and> IoReadBytes (resources b) = 256)"
proof -
  obtain r st' where e: "executeSingleQuery sim_driver ''SELECT 1'' sim_start = (Inr r, st')"
      and l: "length (Results r) = 1"
    by (simp add: engine_eval)
  from benchmark_fields_fixed [OF e] obtain b where
      b: "Benchmarks r = Some b" "ThreadCount (resources b) = 4"
      and sc: "length (Results r) < 2 ^ 53 \<longrightarrow>
            RowsProcessed (queryStats b) = 2 * int (length (Results r))
          \<and> PeakMemoryBytes (resources b) = 1024 * int (length (Results r))
          \<and> IoReadBytes (resources b) = 256 * int (length (Results r))"
    by blast
  from sc l have "RowsProcessed (queryStats b) = 2 \<and> PeakMemoryBytes (resources b) = 1024
      \<and> IoReadBytes (resources b) = 256"
    by simp
  with e l b show ?thesis by blast
qed

text \<open>
  C1, as the specification words it, does not hold.  Its list has \<^verbatim>\<open>UNION\<close> without a word
  boundary in front and any block comment; the code asks for \<^verbatim>\<open>UNION\<close> as a whole word, and
  its \<^verbatim>\<open>.*\<close> between \<^verbatim>\<open>/*\<close> and \<^verbatim>\<open>*/\<close> does not cross a line feed.  So
  \<^verbatim>\<open>REUNION SELECT 1\<close> and a query with a comment of two lines match a pattern of the
  specification and pass the validation; the first is prepared on the engine and returns
  a result.
\<close>

theorem deny_list_counterexample:
  "claimed_union \<in> set claimed_patterns
   \<and> MatchString claimed_union ''REUNION SELECT 1''
   \<and> validateQuery ''REUNION SELECT 1'' = None
   \<and> \<not> isl (fst (ExecuteQuery sim_driver sim_handle ''REUNION SELECT 1'' sim_start))
   \<and> prepared (calls (snd (ExecuteQuery sim_driver sim_handle ''REUNION SELECT 1'' sim_start)))
        = [''REUNION SELECT 1'']
   \<and> claimed_block_comment \<in> set claimed_patterns
   \<and> MatchString claimed_block_comment (''SELECT /* a'' @ [CHR 0x0A] @ '' b */ 1'')
   \<and> validateQuery (''SELECT /* a'' @ [CHR 0x0A] @ '' b */ 1'') = None"
proof -
  have a: "claimed_union \<in> set claimed_patterns" "claimed_block_comment \<in> set claimed_patterns"
    by (simp_all add: claimed_patterns_def suspiciousPatterns_def)
  have b: "MatchString claimed_union ''REUNION SELECT 1''"
    by (simp add: claimed_union_def regexp_eval u8_eval)
  have c: "validateQuery ''REUNION SELECT 1'' = None"
    by (simp add: validateQuery_def regexp_eval u8_eval)
  have d: "MatchString claimed_block_comment (''SELECT /* a'' @ [CHR 0x0A] @ '' b */ 1'')"
    by (simp add: claimed_block_comment_def regexp_eval u8_eval)
  have e: "validateQuery (''SELECT /* a'' @ [CHR 0x0A] @ '' b */ 1'') = None"
    by (simp add: validateQuery_def regexp_eval u8_eval)
  have s: "splitQueryBySemicolon ''REUNION SELECT 1'' = [''REUNION SELECT 1'']"
    by (simp add: splitQueryBySemicolon_def u8_eval)
  have t: "TrimSpace ''REUNION SELECT 1'' = ''REUNION SELECT 1''"
    by (simp add: TrimSpace_def IsSpace_def u8_eval)
  have x: "\<not> isl (fst (ExecuteQuery sim_driver sim_handle ''REUNION SELECT 1'' sim_start))
     \<and> prepared (calls (snd (ExecuteQuery sim_driver sim_handle ''REUNION SELECT 1'' sim_start)))
        = [''REUNION SELECT 1'']"
    unfolding ExecuteQuery_def c s
    by (simp add: t engine_eval)
  from a b c d e x show ?thesis by blast
qed

text \<open>
  C1, amended to the list of the code.  For every query that one of the patterns
  \<^verbatim>\<open>\bUNION\b.*\bSELECT\b\<close>, \<^verbatim>\<open>\bOR\b\s+\d+\s*=\s*\d+\<close>, \<^verbatim>\<open>--\<close>, \<^verbatim>\<open>/\*.*\*/\<close> (a block
  comment that opens and closes on one line), \<^verbatim>\<open>\bEXEC\b\<close> or \<^verbatim>\<open>\bXP_\w+\b\<close> matches
  without regard to case, on a handle whose connection is set, \<^verbatim>\<open>ExecuteQuery\<close> returns
  an error whose message contains \<^verbatim>\<open>potentially malicious SQL pattern detected\<close>
  (followed by the first pattern that matches), and leaves the world as it was: nothing
  is prepared or executed.  A query that no pattern matches passes the validation,
  however many semicolons it has.
\<close>

theorem deny_list_rejects:
  "(db h \<noteq> None \<longrightarrow> pat \<in> set suspiciousPatterns \<longrightarrow> MatchString pat query \<longrightarrow>
      (\<exists>e. ExecuteQuery D h query st = (Inl e, st)
         \<and> strings_Contains (Error e) ''potentially malicious SQL pattern detected''
         \<and> (\<exists>p \<in> set suspiciousPatterns. MatchString p query
               \<and> Error e = ''invalid SQL query: potentially malicious SQL pattern detected: '' @ fst p)))
   \<and> ((\<forall>p \<in> set suspiciousPatterns. \<not> MatchString p query') \<longrightarrow> validateQuery query' = None)"
proof (intro conjI impI)
  assume h: "db h \<noteq> None" and p: "pat \<in> set suspiciousPatterns" and m: "MatchString pat query"
  from p m have "\<exists>pat \<in> set suspiciousPatterns. MatchString pat query" by blast
  from first_match_Some [OF this] obtain p' where
      p': "p' \<in> set suspiciousPatterns" "MatchString p' query"
      and v: "validateQuery query
               = Some (New (''potentially malicious SQL pattern detected: '' @ fst p'))"
    unfolding validateQuery_def by blast
  define e where "e = Errorf_w ''invalid SQL query: ''
      (New (''potentially malicious SQL pattern detected: '' @ fst p'))"
  have x: "ExecuteQuery D h query st = (Inl e, st)"
    using h v by (simp add: ExecuteQuery_def e_def)
  have msg: "Error e = ''invalid SQL query: potentially malicious SQL pattern detected: '' @ fst p'"
    by (simp add: e_def Errorf_w_def)
  have "strings_Contains (''invalid SQL query: '' @ ''potentially malicious SQL pattern detected'' @ ('': '' @ fst p'))
      ''potentially malicious SQL pattern detected''"
    by (rule strings_Contains_mid)
  then have c: "strings_Contains (Error e) ''potentially malicious SQL pattern detected''"
    unfolding msg by simp
  show "\<exists>e. ExecuteQuery D h query st = (Inl e, st)
         \<and> strings_Contains (Error e) ''potentially malicious SQL pattern detected''
         \<and> (\<exists>p \<in> set suspiciousPatterns. MatchString p query
               \<and> Error e = ''invalid SQL query: potentially malicious SQL pattern detected: '' @ fst p)"
    using x c msg p' by blast
next
  assume "\<forall>p \<in> set suspiciousPatterns. \<not> MatchString p query'"
  then show "validateQuery query' = None"
    unfolding validateQuery_def by (rule first_match_None)
qed


theorem deny_list_rejects_witness:
  "(\<exists>e. ExecuteQuery sim_driver sim_handle ''SELECT 1 -- drop'' sim_start = (Inl e, sim_start)
       \<and> strings_Contains (Error e) ''potentially malicious SQL pattern detected'')
   \<and> validateQuery ''SELECT 1; SELECT 2; SELECT 3'' = None"
proof -
  note T = deny_list_rejects [of sim_handle "(''(?i)--'', ilits ''--'')" "''SELECT 1 -- drop''"
      sim_driver sim_start "''SELECT 1; SELECT 2; SELECT 3''"]
  have h: "db sim_handle \<noteq> None" by (simp add: sim_handle_def)
  have p: "(''(?i)--'', ilits ''--'') \<in> set suspiciousPatterns"
    by (simp add: suspiciousPatterns_def)
  have m: "MatchString (''(?i)--'', ilits ''--'') ''SELECT 1 -- drop''"
    by (simp add: regexp_eval u8_eval)
  have n: "\<forall>p \<in> set suspiciousPatterns. \<not> MatchString p ''SELECT 1; SELECT 2; SELECT 3''"
    by (simp add: regexp_eval u8_eval)
  from T h p m n show ?thesis by blast
qed


text \<open>
  C3. For every query that passes the validation, on a handle whose connection is set,
  \<^verbatim>\<open>ExecuteQuery\<close> executes its statements (the segments that are not empty after
  trimming, each with its position, counted from 1, in the list of segments) on the
  engine from left to right.  If the engine answers all of them, the result returned
  holds the rows of the last statement, its duration is the time from the start to the
  end of the loop, and the calls made on the engine are those of the statements in their
  order.  If the engine answers the statements before the one at position \<open>i\<close> and
  reports an error \<open>e\<close> for that one, the error returned is
  \<^verbatim>\<open>failed to execute query i\<close> wrapping \<open>e\<close>, and the calls end with those of the
  statement that failed: no later statement is prepared or queried.
\<close>

theorem ExecuteQuery_sequential:
  assumes "db h \<noteq> None" and "validateQuery query = None"
  shows "(\<forall>rows w. engine_run D (map snd (statements query)) (ticks D 1 (world st)) = Inr (rows, w)
              \<and> rows \<noteq> [] \<longrightarrow>
           (\<exists>r st'. ExecuteQuery D h query st = (Inr r, st')
               \<and> Results r = last rows
               \<and> Duration r = fst (time_Now D w) - fst (time_Now D (world st))
               \<and> calls st' = calls st @ concat (map statement_calls (map snd (statements query)))))
       \<and> (\<forall>pre i q post rows w e. statements query = pre @ (i, q) # post
              \<and> engine_run D (map snd pre) (ticks D 1 (world st)) = Inr (rows, w)
              \<and> engine_answer D q w = Inl e \<longrightarrow>
           (\<exists>c cs st'. c \<in> set error_contexts \<and> cs \<in> set (failed_calls q)
               \<and> ExecuteQuery D h query st
                    = (Inl (Wrap (''failed to execute query '' @ decimal i @ '': ''
                                    @ Error (Errorf_w c e)) (Errorf_w c e)), st')
               \<and> errors_Is (Errorf_w c e) e
               \<and> calls st' = calls st @ concat (map statement_calls (map snd pre)) @ cs))"
proof (intro conjI allI impI)
  obtain t0 s1 where n: "now D st = (t0, s1)" by (cases "now D st")
  note nw = now_world [OF n]
  note eq = ExecuteQuery_run_statements [OF assms, of D st, unfolded n, simplified]
  {
    fix rows w
    assume a: "engine_run D (map snd (statements query)) (ticks D 1 (world st)) = Inr (rows, w)
       \<and> rows \<noteq> []"
    then have "engine_run D (map snd (statements query)) (world s1) = Inr (rows, w)"
      using nw by simp
    from run_statements_ok [OF this] obtain rs s2 where
        rs: "run_statements D (statements query) s1 = (Inr rs, s2)" "map Results rs = rows"
          "world s2 = w"
          "calls s2 = calls s1 @ concat (map statement_calls (map snd (statements query)))"
      by blast
    obtain t1 s3 where n3: "now D s2 = (t1, s3)" by (cases "now D s2")
    have ne: "rs \<noteq> []" using a rs(2) by auto
    have x: "ExecuteQuery D h query st = (Inr (set_total (t1 - t0) (last rs)), s3)"
      using eq rs(1) ne n3 by simp
    have l: "Results (last rs) = last rows"
      using rs(2) ne by (metis last_map)
    have "Results (set_total (t1 - t0) (last rs)) = last rows"
        "Duration (set_total (t1 - t0) (last rs)) = fst (time_Now D w) - fst (time_Now D (world st))"
        "calls s3 = calls st @ concat (map statement_calls (map snd (statements query)))"
      using l now_world [OF n3] nw rs(3,4) by (simp_all add: set_total_def)
    with x show "\<exists>r st'. ExecuteQuery D h query st = (Inr r, st')
               \<and> Results r = last rows
               \<and> Duration r = fst (time_Now D w) - fst (time_Now D (world st))
               \<and> calls st' = calls st @ concat (map statement_calls (map snd (statements query)))"
      by blast
  }
  {
    fix pre i q post rows w e
    assume a: "statements query = pre @ (i, q) # post
              \<and> engine_run D (map snd pre) (ticks D 1 (world st)) = Inr (rows, w)
              \<and> engine_answer D q w = Inl e"
    then have er: "engine_run D (map snd pre) (world s1) = Inr (rows, w)"
        and ea: "engine_answer D q w = Inl e"
      using nw by simp_all
    from run_statements_fail [OF er ea, of i post] obtain c cs s2 where
        f: "c \<in> set error_contexts" "cs \<in> set (failed_calls q)"
          "run_statements D (pre @ (i, q) # post) s1 = (Inl (i, Errorf_w c e), s2)"
          "calls s2 = calls s1 @ concat (map statement_calls (map snd pre)) @ cs"
      by blast
    have "ExecuteQuery D h query st
        = (Inl (Wrap (''failed to execute query '' @ decimal i @ '': ''
                                    @ Error (Errorf_w c e)) (Errorf_w c e)), s2)"
      using eq a f(3) by simp
    moreover have "calls s2 = calls st @ concat (map statement_calls (map snd pre)) @ cs"
      using f(4) nw by simp
    ultimately show "\<exists>c cs st'. c \<in> set error_contexts \<and> cs \<in> set (failed_calls q)
               \<and> ExecuteQuery D h query st
                    = (Inl (Wrap (''failed to execute query '' @ decimal i @ '': ''
                                    @ Error (Errorf_w c e)) (Errorf_w c e)), st')
               \<and> errors_Is (Errorf_w c e) e
               \<and> calls st' = calls st @ concat (map statement_calls (map snd pre)) @ cs"
      using f(1,2) errors_Is_Errorf_w by blast
  }
qed

theorem ExecuteQuery_sequential_witness:
  "(\<exists>r st'. ExecuteQuery echo_driver sim_handle ''SELECT 1;; SELECT 2'' sim_start = (Inr r, st')
       \<and> Results r = [[''statement'' \<mapsto> AnyString ''SELECT 2'']]
       \<and> Duration r = 19000000
       \<and> calls st' = [Prepare ''SELECT 1'', Query ''SELECT 1'', CloseRows, CloseStmt,
                      Prepare ''SELECT 2'', Query ''SELECT 2'', CloseRows, CloseStmt])
   \<and> (\<exists>c cs st'. c \<in> set error_contexts \<and> cs \<in> set (failed_calls ''SELECT x FROM nosuch'')
       \<and> ExecuteQuery echo_driver sim_handle ''SELECT 1;; SELECT x FROM nosuch; SELECT 2'' sim_start
           = (Inl (Wrap (''failed to execute query 3: '' @ c
                           @ ''Catalog Error: Table with name nosuch does not exist!'')
                    (Wrap (c @ ''Catalog Error: Table with name nosuch does not exist!'')
                       (New ''Catalog Error: Table with name nosuch does not exist!''))), st')
       \<and> calls st' = [Prepare ''SELECT 1'', Query ''SELECT 1'', CloseRows, CloseStmt] @ cs)"
proof -
  have h: "db sim_handle \<noteq> None" by (simp add: sim_handle_def)
  have v1: "validateQuery ''SELECT 1;; SELECT 2'' = None"
    by (simp add: validateQuery_def regexp_eval u8_eval)
  have v2: "validateQuery ''SELECT 1;; SELECT x FROM nosuch; SELECT 2'' = None"
    by (simp add: validateQuery_def regexp_eval u8_eval)
  define w :: sim where "w = \<lparr> clock = 19000000, closed = False, files = [''/tmp/duckdb_1.db''] \<rparr>"
  have r1: "engine_run echo_driver (map snd (statements ''SELECT 1;; SELECT 2''))
        (ticks echo_driver 1 (world sim_start))
      = Inr ([[[''statement'' \<mapsto> AnyString ''SELECT 1'']], [[''statement'' \<mapsto> AnyString ''SELECT 2'']]], w)"
    unfolding statements_example2 by (simp add: echo_eval w_def)
  note T1 = ExecuteQuery_sequential [OF h v1, of echo_driver sim_start, THEN conjunct1, rule_format,
      OF conjI [OF r1]]
  have a: "\<exists>r st'. ExecuteQuery echo_driver sim_handle ''SELECT 1;; SELECT 2'' sim_start = (Inr r, st')
       \<and> Results r = [[''statement'' \<mapsto> AnyString ''SELECT 2'']]
       \<and> Duration r = 19000000
       \<and> calls st' = [Prepare ''SELECT 1'', Query ''SELECT 1'', CloseRows, CloseStmt,
                      Prepare ''SELECT 2'', Query ''SELECT 2'', CloseRows, CloseStmt]"
    using T1 unfolding statements_example2 by (simp add: echo_eval w_def)
  define w2 :: sim where "w2 = \<lparr> clock = 10000000, closed = False, files = [''/tmp/duckdb_1.db''] \<rparr>"
  have s2: "statements ''SELECT 1;; SELECT x FROM nosuch; SELECT 2''
      = [(1, ''SELECT 1'')] @ (3, ''SELECT x FROM nosuch'') # [(4, ''SELECT 2'')]"
    unfolding statements_example by simp
  have r2: "engine_run echo_driver (map snd [(1 :: nat, ''SELECT 1'')]) (ticks echo_driver 1 (world sim_start))
      = Inr ([[[''statement'' \<mapsto> AnyString ''SELECT 1'']]], w2)"
    by (simp add: echo_eval w2_def)
  have e2: "engine_answer echo_driver ''SELECT x FROM nosuch'' w2
      = Inl (New ''Catalog Error: Table with name nosuch does not exist!'')"
    by (simp add: echo_eval w2_def)
  note T2 = ExecuteQuery_sequential [OF h v2, of echo_driver sim_start, THEN conjunct2, rule_format,
      OF conjI [OF s2 conjI [OF r2 e2]]]
  have b: "\<exists>c cs st'. c \<in> set error_contexts \<and> cs \<in> set (failed_calls ''SELECT x FROM nosuch'')
       \<and> ExecuteQuery echo_driver sim_handle ''SELECT 1;; SELECT x FROM nosuch; SELECT 2'' sim_start
           = (Inl (Wrap (''failed to execute query 3: '' @ c
                           @ ''Catalog Error: Table with name nosuch does not exist!'')
                    (Wrap (c @ ''Catalog Error: Table with name nosuch does not exist!'')
                       (New ''Catalog Error: Table with name nosuch does not exist!''))), st')
       \<and> calls st' = [Prepare ''SELECT 1'', Query ''SELECT 1'', CloseRows, CloseStmt] @ cs"
  proof -
    from T2 obtain c cs st' where
        x: "c \<in> set error_contexts" "cs \<in> set (failed_calls ''SELECT x FROM nosuch'')"
          "ExecuteQuery echo_driver sim_handle ''SELECT 1;; SELECT x FROM nosuch; SELECT 2'' sim_start
             = (Inl (Wrap (''failed to execute query '' @ decimal 3 @ '': ''
                  @ Error (Errorf_w c (New ''Catalog Error: Table with name nosuch does not exist!'')))
                 (Errorf_w c (New ''Catalog Error: Table with name nosuch does not exist!''))), st')"
          "calls st' = calls sim_start @ concat (map statement_calls (map snd [(1 :: nat, ''SELECT 1'')])) @ cs"
      by blast
    have d: "decimal 3 = ''3''" by (simp add: digit_char_def char_of_eq_iff)
    have "ExecuteQuery echo_driver sim_handle ''SELECT 1;; SELECT x FROM nosuch; SELECT 2'' sim_start
           = (Inl (Wrap (''failed to execute query 3: '' @ c
                           @ ''Catalog Error: Table with name nosuch does not exist!'')
                    (Wrap (c @ ''Catalog Error: Table with name nosuch does not exist!'')
                       (New ''Catalog Error: Table with name nosuch does not exist!''))), st')"
      using x(3) unfolding d by (simp add: Errorf_w_def)
    moreover have "calls st' = [Prepare ''SELECT 1'', Query ''SELECT 1'', CloseRows, CloseStmt] @ cs"
      using x(4) by (simp add: statement_calls_def sim_start_def)
    ultimately show ?thesis using x(1,2) by blast
  qed
  from a b show ?thesis by (rule conjI)
qed

text \<open>
  C9. For every query made of white space and semicolons only, on a handle whose connection
  is set, \<^verbatim>\<open>ExecuteQuery\<close> returns the error \<^verbatim>\<open>no valid queries to execute\<close> and makes
  no call on the engine.
\<close>

theorem no_valid_queries:
  assumes "db h \<noteq> None"
    and "\<forall>r \<in> set (runes query). IsSpace r \<or> r = of_char CHR '';''"
  shows "\<exists>st'. ExecuteQuery D h query st = (Inl (New ''no valid queries to execute''), st')
           \<and> calls st' = calls st"
proof -
  have b: "\<forall>r \<in> set (runes query). blank r" using assms(2) by (simp add: blank_def)
  obtain t0 s1 where n: "now D st = (t0, s1)" by (cases "now D st")
  have l: "execute_loop D 0 (splitQueryBySemicolon query) None s1 = (Inr None, s1)"
    by (rule execute_loop_empty [OF blank_segments [OF b]])
  have "ExecuteQuery D h query st = (Inl (New ''no valid queries to execute''), s1)"
    using assms(1) blank_validates [OF b] n l by (simp add: ExecuteQuery_def)
  then show ?thesis using now_calls [OF n] by blast
qed

theorem no_valid_queries_witness:
  "\<exists>st'. ExecuteQuery sim_driver sim_handle ('' ;'' @ [CHR 0x0A] @ '';  '') sim_start
           = (Inl (New ''no valid queries to execute''), st')
         \<and> calls st' = []"
proof -
  have h: "db sim_handle \<noteq> None" by (simp add: sim_handle_def)
  have b: "\<forall>r \<in> set (runes ('' ;'' @ [CHR 0x0A] @ '';  '')). IsSpace r \<or> r = of_char CHR '';''"
    by (simp add: u8_eval IsSpace_def)
  from no_valid_queries [OF h b, of sim_driver sim_start]
  show ?thesis by (simp add: sim_start_def)
qed

text \<open>
  C6. The claim is that a second \<^verbatim>\<open>Close\<close>, after a first one that succeeded, returns an
  error and does not panic.  \<^verbatim>\<open>Close\<close> keeps no record of having been called: it closes
  the connection again and removes the files again.  With a connection that behaves as
  \<^verbatim>\<open>database/sql\<close> does (closing a closed database returns nil) and the file gone, the
  second call returns nil, as the counterexample shows on the simulated engine.  What
  holds: the second call does not panic, and it returns nil exactly when closing the
  connection again reports no error and removing the database file reports none other
  than that the file does not exist.
\<close>

theorem Close_twice_counterexample:
  "fst (Close sim_driver sim_handle sim_start) = Return None
   \<and> fst (Close sim_driver sim_handle (snd (Close sim_driver sim_handle sim_start))) = Return None"
  by (simp add: close_eval)

theorem Close_second:
  assumes "cancelFunc h" and "db h \<noteq> None" and "Close D h st = (Return None, st1)"
  shows "\<exists>r st2. Close D h st1 = (Return r, st2)
     \<and> (r = None \<longleftrightarrow>
          (\<exists>w1 x w2. db_Close D (ctx_cancel D (world st1)) = (None, w1)
              \<and> os_Remove D (dbPath h) w1 = (x, w2)
              \<and> (case x of None \<Rightarrow> True | Some e \<Rightarrow> IsNotExist e)))"
proof -
  obtain c w1 where c: "db_Close D (ctx_cancel D (world st1)) = (c, w1)"
    by (cases "db_Close D (ctx_cancel D (world st1))")
  obtain x w2 where x: "os_Remove D (dbPath h) w1 = (x, w2)"
    by (cases "os_Remove D (dbPath h) w1")
  obtain y w3 where y: "os_Remove D (dbPath h @ ''.wal'') w2 = (y, w3)"
    by (cases "os_Remove D (dbPath h @ ''.wal'') w2")
  show ?thesis
  proof (cases c)
    case (Some err)
    then show ?thesis using assms(1,2) c
      by (simp add: Close_def close_db_def Let_def)
  next
    case None
    show ?thesis
    proof (cases x)
      case n: None
      then show ?thesis using assms(1,2) c None x y
        by (simp add: Close_def close_db_def remove_file_def Let_def)
    next
      case (Some e)
      then show ?thesis using assms(1,2) c None x y
        by (simp add: Close_def close_db_def remove_file_def Let_def)
    qed
  qed
qed

theorem Close_second_witness:
  "\<exists>st1 r st2. Close sim_driver sim_handle sim_start = (Return None, st1)
      \<and> Close sim_driver sim_handle st1 = (Return r, st2)"
proof -
  obtain st1 where f: "Close sim_driver sim_handle sim_start = (Return None, st1)"
    by (simp add: close_eval)
  have c: "cancelFunc sim_handle" and d: "db sim_handle \<noteq> None"
    by (simp_all add: sim_handle_def)
  from Close_second [OF c d f] f show ?thesis by blast
qed

end
